theory Spec2Isabelle
  imports Main "HOL-Library.Word"
begin

unbundle bit_operations_syntax

section \<open>Values of the JavaScript platform\<close>

text \<open>
  A \<^verbatim>\<open>Uint8Array\<close> is a list of 8-bit words.  A JavaScript \<^verbatim>\<open>string\<close> is a
  sequence of 16-bit UTF-16 code units, paired or not; ECMAScript bounds its length by
  \<open>2^53 - 1\<close>.  An exception is a value: the class of the error object and its message.
\<close>

type_synonym byte = "8 word"
type_synonym bytes = "byte list"
type_synonym jsstring = "16 word list"

datatype exn = Error jsstring | TypeError jsstring

definition ascii :: "string \<Rightarrow> jsstring" where
  "ascii s = map (\<lambda>c. of_nat (of_char c)) s"

definition is_String :: "jsstring \<Rightarrow> bool" where
  "is_String m = (length m < 2 ^ 53)"

subsection \<open>TextEncoder\<close>

text \<open>
  \<^verbatim>\<open>new TextEncoder().encode(s)\<close> first converts \<open>s\<close> to a sequence of Unicode scalar
  values (a surrogate code unit that is not part of a pair becomes U+FFFD), then writes
  each scalar value in UTF-8.  The masks \<^verbatim>\<open>& 0x3FF\<close> and \<^verbatim>\<open>& 0x3F\<close> and the shifts
  are written as \<open>mod\<close> and \<open>div\<close> by the power of two.
\<close>

definition is_high_surrogate :: "16 word \<Rightarrow> bool" where
  "is_high_surrogate c = (0xD800 \<le> unat c \<and> unat c \<le> 0xDBFF)"

definition is_low_surrogate :: "16 word \<Rightarrow> bool" where
  "is_low_surrogate c = (0xDC00 \<le> unat c \<and> unat c \<le> 0xDFFF)"

fun to_scalar_values :: "jsstring \<Rightarrow> nat list" where
  "to_scalar_values [] = []"
| "to_scalar_values [c] =
     (if is_high_surrogate c \<or> is_low_surrogate c then [0xFFFD] else [unat c])"
| "to_scalar_values (c # d # cs) =
     (if is_high_surrogate c then
        (if is_low_surrogate d
         then (0x10000 + 0x400 * (unat c mod 0x400) + unat d mod 0x400) # to_scalar_values cs
         else 0xFFFD # to_scalar_values (d # cs))
      else if is_low_surrogate c then 0xFFFD # to_scalar_values (d # cs)
      else unat c # to_scalar_values (d # cs))"

definition utf8_encode_scalar :: "nat \<Rightarrow> bytes" where
  "utf8_encode_scalar cp =
     (if cp \<le> 0x7F then [of_nat cp]
      else if cp \<le> 0x7FF then
        [of_nat (cp div 64 + 0xC0), of_nat (0x80 + cp mod 64)]
      else if cp \<le> 0xFFFF then
        [of_nat (cp div 4096 + 0xE0), of_nat (0x80 + (cp div 64) mod 64),
         of_nat (0x80 + cp mod 64)]
      else
        [of_nat (cp div 262144 + 0xF0), of_nat (0x80 + (cp div 4096) mod 64),
         of_nat (0x80 + (cp div 64) mod 64), of_nat (0x80 + cp mod 64)])"

definition TextEncoder_encode :: "jsstring \<Rightarrow> bytes" where
  "TextEncoder_encode s = concat (map utf8_encode_scalar (to_scalar_values s))"

subsection \<open>TextDecoder\<close>

text \<open>
  The UTF-8 decoder of the Encoding standard: a state machine over the bytes.  On an
  ill-formed sequence it reports an error, which a decoder created with
  \<^verbatim>\<open>{fatal: true}\<close> throws as a \<^verbatim>\<open>TypeError\<close> and any other decoder replaces by U+FFFD;
  a continuation byte out of range is put back and read again in the initial state.
  \<^verbatim>\<open>decode\<close> drops a leading byte order mark EF BB BF (the decoder's \<^verbatim>\<open>ignoreBOM\<close> is
  false unless asked for) and returns the code points as UTF-16.
\<close>

record utf8_state =
  code_point :: nat
  bytes_seen :: nat
  bytes_needed :: nat
  lower_boundary :: nat
  upper_boundary :: nat

definition utf8_init :: utf8_state where
  "utf8_init = \<lparr>code_point = 0, bytes_seen = 0, bytes_needed = 0,
                lower_boundary = 0x80, upper_boundary = 0xBF\<rparr>"

datatype utf8_step = Continue utf8_state | Emit nat | Failure | FailureRestore

definition utf8_handler :: "utf8_state \<Rightarrow> nat \<Rightarrow> utf8_step" where
  "utf8_handler st b =
     (if bytes_needed st = 0 then
        (if b \<le> 0x7F then Emit b
         else if 0xC2 \<le> b \<and> b \<le> 0xDF then
           Continue (st\<lparr>bytes_needed := 1, code_point := b mod 32\<rparr>)
         else if 0xE0 \<le> b \<and> b \<le> 0xEF then
           Continue (st\<lparr>lower_boundary := (if b = 0xE0 then 0xA0 else lower_boundary st),
                        upper_boundary := (if b = 0xED then 0x9F else upper_boundary st),
                        bytes_needed := 2, code_point := b mod 16\<rparr>)
         else if 0xF0 \<le> b \<and> b \<le> 0xF4 then
           Continue (st\<lparr>lower_boundary := (if b = 0xF0 then 0x90 else lower_boundary st),
                        upper_boundary := (if b = 0xF4 then 0x8F else upper_boundary st),
                        bytes_needed := 3, code_point := b mod 8\<rparr>)
         else Failure)
      else if \<not> (lower_boundary st \<le> b \<and> b \<le> upper_boundary st) then FailureRestore
      else
        (let st' = st\<lparr>lower_boundary := 0x80, upper_boundary := 0xBF,
                       code_point := code_point st * 64 + b mod 64,
                       bytes_seen := bytes_seen st + 1\<rparr>
         in if bytes_seen st' \<noteq> bytes_needed st' then Continue st'
            else Emit (code_point st')))"

definition emit :: "nat \<Rightarrow> exn + nat list \<Rightarrow> exn + nat list" where
  "emit cp r = (case r of Inl e \<Rightarrow> Inl e | Inr cps \<Rightarrow> Inr (cp # cps))"

definition decode_error :: "bool \<Rightarrow> exn + nat list \<Rightarrow> exn + nat list" where
  "decode_error fatal r =
     (if fatal then Inl (TypeError (ascii ''The encoded data was not valid.''))
      else emit 0xFFFD r)"

function utf8_decode_run :: "bool \<Rightarrow> utf8_state \<Rightarrow> bytes \<Rightarrow> exn + nat list" where
  "utf8_decode_run fatal st [] =
     (if bytes_needed st \<noteq> 0 then decode_error fatal (Inr []) else Inr [])"
| "utf8_decode_run fatal st (b # bs) =
     (case utf8_handler st (unat b) of
        Continue st' \<Rightarrow> utf8_decode_run fatal st' bs
      | Emit cp \<Rightarrow> emit cp (utf8_decode_run fatal utf8_init bs)
      | Failure \<Rightarrow> decode_error fatal (utf8_decode_run fatal utf8_init bs)
      | FailureRestore \<Rightarrow> decode_error fatal (utf8_decode_run fatal utf8_init (b # bs)))"
  by pat_completeness auto
termination
  by (relation "measure (\<lambda>(fatal, st, bs). 2 * length bs + (if bytes_needed st = 0 then 0 else 1))")
     (auto simp: utf8_handler_def utf8_init_def split: if_splits)

definition utf16_encode_scalar :: "nat \<Rightarrow> jsstring" where
  "utf16_encode_scalar cp =
     (if cp < 0x10000 then [of_nat cp]
      else [of_nat (0xD800 + (cp - 0x10000) div 0x400),
            of_nat (0xDC00 + (cp - 0x10000) mod 0x400)])"

definition TextDecoder_decode :: "bool \<Rightarrow> bytes \<Rightarrow> exn + jsstring" where
  "TextDecoder_decode fatal bs =
     (let input = (if take 3 bs = [0xEF, 0xBB, 0xBF] then drop 3 bs else bs)
      in case utf8_decode_run fatal utf8_init input of
           Inl e \<Rightarrow> Inl e
         | Inr cps \<Rightarrow> Inr (concat (map utf16_encode_scalar cps)))"


definition is_scalar :: "nat \<Rightarrow> bool" where
  "is_scalar cp = (cp < 0x110000 \<and> \<not> (0xD800 \<le> cp \<and> cp \<le> 0xDFFF))"

text \<open>A string is well formed when every surrogate code unit is part of a pair.\<close>

fun well_formed :: "jsstring \<Rightarrow> bool" where
  "well_formed [] = True"
| "well_formed [c] = (\<not> is_high_surrogate c \<and> \<not> is_low_surrogate c)"
| "well_formed (c # d # cs) =
     (if is_high_surrogate c then is_low_surrogate d \<and> well_formed cs
      else \<not> is_low_surrogate c \<and> well_formed (d # cs))"

section \<open>The ChaCha20 block function\<close>

text \<open>
  Both libraries build on the ChaCha20 block function: sixteen 32-bit words (four
  constants, the eight words of the key, and four words of counter and nonce read from
  a 16-byte input), ten double rounds, the feed-forward addition, and the words written
  out little-endian.  A byte missing from a short array reads as 0, as
  \<^verbatim>\<open>undefined\<close> does under JavaScript's bit operators.
\<close>

definition load32 :: "bytes \<Rightarrow> nat \<Rightarrow> 32 word" where
  "load32 bs i = foldr (\<lambda>b w. ucast b OR push_bit 8 w) (take 4 (drop i bs)) 0"

definition store32 :: "32 word \<Rightarrow> bytes" where
  "store32 w = [ucast w, ucast (drop_bit 8 w), ucast (drop_bit 16 w), ucast (drop_bit 24 w)]"

definition rotl32 :: "32 word \<Rightarrow> nat \<Rightarrow> 32 word" where
  "rotl32 x n = push_bit n x OR drop_bit (32 - n) x"

definition quarter_round :: "nat \<Rightarrow> nat \<Rightarrow> nat \<Rightarrow> nat \<Rightarrow> 32 word list \<Rightarrow> 32 word list" where
  "quarter_round a b c d x0 =
     (let x1 = x0[a := x0 ! a + x0 ! b];
          x2 = x1[d := rotl32 (x1 ! d XOR x1 ! a) 16];
          x3 = x2[c := x2 ! c + x2 ! d];
          x4 = x3[b := rotl32 (x3 ! b XOR x3 ! c) 12];
          x5 = x4[a := x4 ! a + x4 ! b];
          x6 = x5[d := rotl32 (x5 ! d XOR x5 ! a) 8];
          x7 = x6[c := x6 ! c + x6 ! d]
      in x7[b := rotl32 (x7 ! b XOR x7 ! c) 7])"

definition double_round :: "32 word list \<Rightarrow> 32 word list" where
  "double_round =
     quarter_round 3 4 9 14 \<circ> quarter_round 2 7 8 13 \<circ>
     quarter_round 1 6 11 12 \<circ> quarter_round 0 5 10 15 \<circ>
     quarter_round 3 7 11 15 \<circ> quarter_round 2 6 10 14 \<circ>
     quarter_round 1 5 9 13 \<circ> quarter_round 0 4 8 12"

definition chacha_state :: "bytes \<Rightarrow> bytes \<Rightarrow> 32 word list" where
  "chacha_state input key =
     [0x61707865, 0x3320646E, 0x79622D32, 0x6B206574]
     @ map (\<lambda>i. load32 key (4 * i)) [0..<8]
     @ map (\<lambda>i. load32 input (4 * i)) [0..<4]"

definition chacha_core :: "bytes \<Rightarrow> bytes \<Rightarrow> bytes" where
  "chacha_core input key =
     (let j = chacha_state input key;
          x = (double_round ^^ 10) j
      in concat (map store32 (map2 (+) x j)))"

section \<open>The library @stablelib/chacha\<close>

text \<open>
  \<^verbatim>\<open>streamXOR(key, nonce, src, dst)\<close> checks the sizes, lays the nonce out after a
  zero counter in a 16-byte block, and for every 64 bytes of \<open>src\<close> generates a block,
  XORs it into \<open>dst\<close> and increments the counter, which throws when it overflows.
\<close>

fun add_carry :: "bytes \<Rightarrow> nat \<Rightarrow> bytes \<times> nat" where
  "add_carry [] carry = ([], carry)"
| "add_carry (b # bs) carry =
     (let s = carry + unat b; r = add_carry bs (s div 256)
      in (of_nat (s mod 256) # fst r, snd r))"

definition incrementCounter :: "bytes \<Rightarrow> nat \<Rightarrow> nat \<Rightarrow> exn + bytes" where
  "incrementCounter counter pos len =
     (let r = add_carry (take len (drop pos counter)) 1
      in if snd r > 0 then Inl (Error (ascii ''ChaCha: counter overflow''))
         else Inr (take pos counter @ fst r @ drop (pos + len) counter))"

function streamXOR_blocks :: "bytes \<Rightarrow> bytes \<Rightarrow> nat \<Rightarrow> bytes \<Rightarrow> exn + bytes" where
  "streamXOR_blocks key nc counterLength src =
     (if src = [] then Inr []
      else
        (let block = chacha_core nc key;
             out = map2 (XOR) (take 64 src) block
         in case incrementCounter nc 0 counterLength of
              Inl e \<Rightarrow> Inl e
            | Inr nc' \<Rightarrow>
                (case streamXOR_blocks key nc' counterLength (drop 64 src) of
                   Inl e \<Rightarrow> Inl e
                 | Inr rest \<Rightarrow> Inr (out @ rest))))"
  by pat_completeness auto
termination
  by (relation "measure (\<lambda>(key, nc, counterLength, src). length src)") auto

declare streamXOR_blocks.simps [simp del]

definition streamXOR :: "bytes \<Rightarrow> bytes \<Rightarrow> bytes \<Rightarrow> bytes \<Rightarrow> exn + bytes" where
  "streamXOR key nonce src dst =
     (if length key \<noteq> 32 then Inl (Error (ascii ''ChaCha: key size must be 32 bytes''))
      else if length dst < length src then
        Inl (Error (ascii ''ChaCha: destination is shorter than source''))
      else if length nonce \<noteq> 8 \<and> length nonce \<noteq> 12 then
        Inl (Error (ascii ''ChaCha nonce must be 8 or 12 bytes''))
      else
        (let counterLength = 16 - length nonce;
             nc = replicate counterLength 0 @ nonce
         in case streamXOR_blocks key nc counterLength src of
              Inl e \<Rightarrow> Inl e
            | Inr out \<Rightarrow> Inr (out @ drop (length src) dst)))"

section \<open>The library libsodium-wrappers\<close>

subsection \<open>Strings and random bytes\<close>

text \<open>
  \<^verbatim>\<open>sodium.from_string\<close> is \<^verbatim>\<open>new TextEncoder().encode\<close> and \<^verbatim>\<open>sodium.to_string\<close> is
  \<^verbatim>\<open>new TextDecoder("utf-8", {fatal: true}).decode\<close>.  The random source is a stream
  of bytes; \<^verbatim>\<open>randombytes_buf(n)\<close> takes the next \<open>n\<close> of them.
\<close>

definition from_string :: "jsstring \<Rightarrow> bytes" where
  "from_string str = TextEncoder_encode str"

definition to_string :: "bytes \<Rightarrow> exn + jsstring" where
  "to_string bs = TextDecoder_decode True bs"

type_synonym rng = "nat \<Rightarrow> byte"

definition randombytes_buf :: "nat \<Rightarrow> rng \<Rightarrow> bytes \<times> rng" where
  "randombytes_buf n g = (map g [0..<n], \<lambda>i. g (i + n))"

subsection \<open>Poly1305 and the IETF ChaCha20-Poly1305 construction\<close>

definition le_nat :: "bytes \<Rightarrow> nat" where
  "le_nat bs = foldr (\<lambda>b n. unat b + 256 * n) bs 0"

fun le_bytes :: "nat \<Rightarrow> nat \<Rightarrow> bytes" where
  "le_bytes 0 n = []"
| "le_bytes (Suc k) n = of_nat (n mod 256) # le_bytes k (n div 256)"

function poly1305_blocks :: "nat \<Rightarrow> nat \<Rightarrow> bytes \<Rightarrow> nat" where
  "poly1305_blocks r acc m =
     (if m = [] then acc
      else poly1305_blocks r
             (((acc + le_nat (take 16 m @ [1])) * r) mod (2 ^ 130 - 5)) (drop 16 m))"
  by pat_completeness auto
termination
  by (relation "measure (\<lambda>(r, acc, m). length m)") auto

declare poly1305_blocks.simps [simp del]

definition crypto_onetimeauth_poly1305 :: "bytes \<Rightarrow> bytes \<Rightarrow> bytes" where
  "crypto_onetimeauth_poly1305 m k =
     (let r = le_nat (take 16 k) AND 0x0FFFFFFC0FFFFFFC0FFFFFFC0FFFFFFF;
          s = le_nat (take 16 (drop 16 k))
      in le_bytes 16 ((poly1305_blocks r 0 m + s) mod 2 ^ 128))"

text \<open>
  The keystream of \<^verbatim>\<open>crypto_stream_chacha20_ietf_xor_ic\<close>: a 32-bit block counter
  followed by the 12-byte nonce; the reference implementation carries a counter
  overflow into the next word.
\<close>

function chacha20_ietf_blocks :: "bytes \<Rightarrow> bytes \<Rightarrow> bytes \<Rightarrow> bytes" where
  "chacha20_ietf_blocks k input m =
     (if m = [] then []
      else map2 (XOR) (take 64 m) (chacha_core input k)
           @ chacha20_ietf_blocks k
               (fst (add_carry (take 8 input) 1) @ drop 8 input) (drop 64 m))"
  by pat_completeness auto
termination
  by (relation "measure (\<lambda>(k, input, m). length m)") auto

declare chacha20_ietf_blocks.simps [simp del]

definition crypto_stream_chacha20_ietf_xor_ic :: "bytes \<Rightarrow> bytes \<Rightarrow> nat \<Rightarrow> bytes \<Rightarrow> bytes" where
  "crypto_stream_chacha20_ietf_xor_ic m n ic k = chacha20_ietf_blocks k (le_bytes 4 ic @ n) m"

definition pad16 :: "bytes \<Rightarrow> bytes" where
  "pad16 x = replicate ((16 - length x mod 16) mod 16) 0"

definition aead_mac :: "bytes \<Rightarrow> bytes \<Rightarrow> bytes \<Rightarrow> bytes \<Rightarrow> bytes" where
  "aead_mac c ad npub k =
     (let block0 = chacha_core (le_bytes 4 0 @ npub) k
      in crypto_onetimeauth_poly1305
           (ad @ pad16 ad @ c @ pad16 c @ le_bytes 8 (length ad) @ le_bytes 8 (length c))
           (take 32 block0))"

definition aead_encrypt :: "bytes \<Rightarrow> bytes \<Rightarrow> bytes \<Rightarrow> bytes \<Rightarrow> bytes" where
  "aead_encrypt m ad npub k =
     (let c = crypto_stream_chacha20_ietf_xor_ic m npub 1 k
      in c @ aead_mac c ad npub k)"

definition aead_decrypt :: "bytes \<Rightarrow> bytes \<Rightarrow> bytes \<Rightarrow> bytes \<Rightarrow> bytes option" where
  "aead_decrypt c ad npub k =
     (if length c < 16 then None
      else
        (let body = take (length c - 16) c; mac = drop (length c - 16) c
         in if aead_mac body ad npub k \<noteq> mac then None
            else Some (crypto_stream_chacha20_ietf_xor_ic body npub 1 k)))"


text \<open>
  The wrappers check the sizes of their arguments in the order in which they take them
  and throw a \<^verbatim>\<open>TypeError\<close>; a failed decryption throws an \<^verbatim>\<open>Error\<close>.  An optional
  buffer that is \<^verbatim>\<open>null\<close> is \<open>None\<close> and counts as empty; the construction does not
  use the secret nonce.
\<close>

definition crypto_aead_chacha20poly1305_ietf_NPUBBYTES :: nat where
  "crypto_aead_chacha20poly1305_ietf_NPUBBYTES = 12"

definition optional_buf :: "bytes option \<Rightarrow> bytes" where
  "optional_buf x = (case x of None \<Rightarrow> [] | Some b \<Rightarrow> b)"

definition crypto_aead_chacha20poly1305_ietf_encrypt ::
  "bytes \<Rightarrow> bytes option \<Rightarrow> bytes option \<Rightarrow> bytes \<Rightarrow> bytes \<Rightarrow> exn + bytes" where
  "crypto_aead_chacha20poly1305_ietf_encrypt message additional_data secret_nonce
       public_nonce key =
     (if length public_nonce \<noteq> crypto_aead_chacha20poly1305_ietf_NPUBBYTES then
        Inl (TypeError (ascii ''invalid public_nonce length''))
      else if length key \<noteq> 32 then Inl (TypeError (ascii ''invalid key length''))
      else Inr (aead_encrypt message (optional_buf additional_data) public_nonce key))"

definition crypto_aead_chacha20poly1305_ietf_decrypt ::
  "bytes option \<Rightarrow> bytes \<Rightarrow> bytes option \<Rightarrow> bytes \<Rightarrow> bytes \<Rightarrow> exn + bytes" where
  "crypto_aead_chacha20poly1305_ietf_decrypt secret_nonce ciphertext additional_data
       public_nonce key =
     (if length ciphertext < 16 then Inl (TypeError (ascii ''ciphertext is too short''))
      else if length public_nonce \<noteq> crypto_aead_chacha20poly1305_ietf_NPUBBYTES then
        Inl (TypeError (ascii ''invalid public_nonce length''))
      else if length key \<noteq> 32 then Inl (TypeError (ascii ''invalid key length''))
      else
        (case aead_decrypt ciphertext (optional_buf additional_data) public_nonce key of
           Some message \<Rightarrow> Inr message
         | None \<Rightarrow> Inl (Error (ascii ''ciphertext cannot be decrypted using that key''))))"

subsection \<open>Hexadecimal\<close>

text \<open>
  \<^verbatim>\<open>sodium.from_hex\<close> turns its argument into bytes, allocates half as many bytes for
  the result and calls \<^verbatim>\<open>sodium_hex2bin\<close>, which reads pairs of hexadecimal digits and
  stops at the first byte that is not one; it fails when the result is full or a pair
  is left open.  The wrapper throws when the call fails or stopped before the end.
\<close>

definition hex_val :: "byte \<Rightarrow> byte option" where
  "hex_val c =
     (if 0x30 \<le> unat c \<and> unat c \<le> 0x39 then Some (c - 0x30)
      else if 0x41 \<le> unat c \<and> unat c \<le> 0x46 then Some (c - 0x37)
      else if 0x61 \<le> unat c \<and> unat c \<le> 0x66 then Some (c - 0x57)
      else None)"

fun hex2bin_loop :: "nat \<Rightarrow> bytes \<Rightarrow> nat \<Rightarrow> bytes \<Rightarrow> byte \<Rightarrow> bool
                      \<Rightarrow> int \<times> nat \<times> bytes \<times> bool" where
  "hex2bin_loop bin_maxlen [] hex_pos bin c_acc state = (0, hex_pos, bin, state)"
| "hex2bin_loop bin_maxlen (c # hex) hex_pos bin c_acc state =
     (case hex_val c of
        None \<Rightarrow> (0, hex_pos, bin, state)
      | Some c_val \<Rightarrow>
          if length bin \<ge> bin_maxlen then (-1, hex_pos, bin, state)
          else if \<not> state then hex2bin_loop bin_maxlen hex (hex_pos + 1) bin (c_val * 16) True
          else hex2bin_loop bin_maxlen hex (hex_pos + 1) (bin @ [c_acc OR c_val]) c_acc False)"

definition sodium_hex2bin :: "nat \<Rightarrow> bytes \<Rightarrow> int \<times> nat \<times> bytes" where
  "sodium_hex2bin bin_maxlen hex =
     (case hex2bin_loop bin_maxlen hex 0 [] 0 False of
        (ret, hex_pos, bin, state) \<Rightarrow>
          (let hex_pos' = (if state then hex_pos - 1 else hex_pos);
               ret' = (if state then -1 else ret)
           in (ret', hex_pos', if ret' \<noteq> 0 then [] else bin)))"

definition from_hex :: "jsstring \<Rightarrow> exn + bytes" where
  "from_hex str =
     (let input = from_string str;
          result_length = length input div 2
      in case sodium_hex2bin result_length input of
           (ret, hex_end, bin) \<Rightarrow>
             if ret \<noteq> 0 then Inl (Error (ascii ''invalid input''))
             else if hex_end \<noteq> length input then Inl (Error (ascii ''incomplete input''))
             else Inr (take result_length (bin @ replicate result_length 0)))"

subsection \<open>Signatures and key exchange\<close>

text \<open>
  The elliptic-curve arithmetic inside libsodium is a parameter of the model: the
  Ed25519 key generation from a seed, signing and verification, and the map
  \<open>scalarmult_u n u\<close> that sends the u-coordinate of a point of Curve25519 to the
  u-coordinate of its \<open>n\<close>-fold multiple.  What the library does around them is
  written out: the sizes of the buffers, the clamping of the scalar, the decoding of
  the u-coordinate, the base point 9 and the rejection of an all-zero result.
\<close>

record curve_prims =
  sign_seed_keypair :: "bytes \<Rightarrow> bytes \<times> bytes"
  sign_detached :: "bytes \<Rightarrow> bytes \<Rightarrow> bytes"
  sign_verify_detached :: "bytes \<Rightarrow> bytes \<Rightarrow> bytes \<Rightarrow> bool"
  scalarmult_u :: "nat \<Rightarrow> nat \<Rightarrow> nat"

record KeyPair =
  publicKey :: bytes
  privateKey :: bytes

definition buf :: "nat \<Rightarrow> bytes \<Rightarrow> bytes" where
  "buf n bs = take n (bs @ replicate n 0)"

definition crypto_sign_keypair :: "curve_prims \<Rightarrow> rng \<Rightarrow> KeyPair \<times> rng" where
  "crypto_sign_keypair P g =
     (let (seed, g') = randombytes_buf 32 g;
          (pk, sk) = sign_seed_keypair P seed
      in (\<lparr>publicKey = buf 32 pk, privateKey = buf 64 sk\<rparr>, g'))"

definition crypto_sign_detached :: "curve_prims \<Rightarrow> bytes \<Rightarrow> bytes \<Rightarrow> exn + bytes" where
  "crypto_sign_detached P message private_key =
     (if length private_key \<noteq> 64 then Inl (TypeError (ascii ''invalid privateKey length''))
      else Inr (buf 64 (sign_detached P message private_key)))"

definition crypto_sign_verify_detached :: "curve_prims \<Rightarrow> bytes \<Rightarrow> bytes \<Rightarrow> bytes \<Rightarrow> exn + bool" where
  "crypto_sign_verify_detached P signature message public_key =
     (if length signature \<noteq> 64 then Inl (TypeError (ascii ''invalid signature length''))
      else if length public_key \<noteq> 32 then Inl (TypeError (ascii ''invalid publicKey length''))
      else Inr (sign_verify_detached P signature message public_key))"

definition decode_scalar :: "bytes \<Rightarrow> nat" where
  "decode_scalar n =
     le_nat (n[0 := n ! 0 AND 248, 31 := (n ! 31 AND 127) OR 64])"

definition decode_u :: "bytes \<Rightarrow> nat" where
  "decode_u p = le_nat p mod 2 ^ 255"

definition crypto_scalarmult_base :: "curve_prims \<Rightarrow> bytes \<Rightarrow> bytes" where
  "crypto_scalarmult_base P n = le_bytes 32 (scalarmult_u P (decode_scalar n) 9)"

definition crypto_box_keypair :: "curve_prims \<Rightarrow> rng \<Rightarrow> KeyPair \<times> rng" where
  "crypto_box_keypair P g =
     (let (sk, g') = randombytes_buf 32 g
      in (\<lparr>publicKey = crypto_scalarmult_base P sk, privateKey = sk\<rparr>, g'))"

definition crypto_scalarmult :: "curve_prims \<Rightarrow> bytes \<Rightarrow> bytes \<Rightarrow> exn + bytes" where
  "crypto_scalarmult P private_key public_key =
     (if length private_key \<noteq> 32 then Inl (TypeError (ascii ''invalid privateKey length''))
      else if length public_key \<noteq> 32 then Inl (TypeError (ascii ''invalid publicKey length''))
      else
        (let q = le_bytes 32 (scalarmult_u P (decode_scalar private_key) (decode_u public_key))
         in if q = replicate 32 0 then Inl (Error (ascii ''weak public key'')) else Inr q))"

section \<open>SecureChatService\<close>

text \<open>
  The class holds the two key pairs, the shared key and the readiness flag; a field that
  is \<^verbatim>\<open>undefined\<close> is \<open>None\<close>.  A method that throws returns \<open>Inl\<close> of the exception and
  leaves the state as it was; a method that assigns a field returns the new state, and
  one that draws random bytes the rest of the random stream.

  \<^verbatim>\<open>init\<close> is an async function.  A call tests \<^verbatim>\<open>_isReady\<close> at once: when the flag is
  set the call returns, otherwise it is suspended at \<^verbatim>\<open>await sodium.ready\<close>, and the rest
  of the body (the two key pairs, then the flag) runs when the call is resumed, on the
  state that the session has by then.
\<close>

record SecureChatService =
  ed25519 :: "KeyPair option"
  x25519 :: "KeyPair option"
  sharedKey :: "bytes option"
  isReady :: bool

record envelope =
  nonce :: bytes
  ciphertext :: bytes

record PublicIdentity =
  ed25519PublicKey_of :: bytes
  dhPublicKey :: bytes
  dhSignature :: bytes

definition new_SecureChatService :: SecureChatService where
  "new_SecureChatService = \<lparr>ed25519 = None, x25519 = None, sharedKey = None, isReady = False\<rparr>"

definition fixedNonce :: bytes where
  "fixedNonce = replicate 8 0"

definition uninitialized :: exn where
  "uninitialized =
     Error ([0x5C1A, 0x672A, 0x521D, 0x59CB, 0x5316, 0xFF1A, 0x8BF7, 0x5148, 0x8C03, 0x7528]
            @ ascii '' init()'')"

definition no_shared_key :: exn where
  "no_shared_key =
     Error ([0x5171, 0x4EAB, 0x5BC6, 0x94A5, 0x672A, 0x5EFA, 0x7ACB, 0xFF1A, 0x8BF7, 0x5148,
             0x8C03, 0x7528] @ ascii '' computeSharedKey()'')"

datatype init_call = Returned | Suspended

definition init_begin :: "SecureChatService \<Rightarrow> init_call" where
  "init_begin s = (if isReady s then Returned else Suspended)"

definition init_resume :: "curve_prims \<Rightarrow> rng \<Rightarrow> SecureChatService \<Rightarrow> SecureChatService \<times> rng" where
  "init_resume P g s =
     (let (ed, g1) = crypto_sign_keypair P g;
          (x, g2) = crypto_box_keypair P g1
      in (s\<lparr>ed25519 := Some ed, x25519 := Some x, isReady := True\<rparr>, g2))"

text \<open>
  A call of \<^verbatim>\<open>init\<close> that is awaited, with nothing else running on the session between
  its suspension and its resumption.
\<close>

definition init :: "curve_prims \<Rightarrow> rng \<Rightarrow> SecureChatService \<Rightarrow> SecureChatService \<times> rng" where
  "init P g s =
     (case init_begin s of
        Returned \<Rightarrow> (s, g)
      | Suspended \<Rightarrow> init_resume P g s)"

text \<open>
  Calls of \<^verbatim>\<open>init\<close> that overlap: the session, the random source and the number of
  calls suspended at the \<^verbatim>\<open>await\<close>.  An event is a call of \<^verbatim>\<open>init\<close>, which returns or is
  suspended, or the resumption of a suspended call.
\<close>

record runtime =
  session :: SecureChatService
  entropy :: rng
  suspended :: nat

datatype event = Call_init | Resume_init

definition boot :: "rng \<Rightarrow> runtime" where
  "boot g = \<lparr>session = new_SecureChatService, entropy = g, suspended = 0\<rparr>"

definition step :: "curve_prims \<Rightarrow> runtime \<Rightarrow> event \<Rightarrow> runtime" where
  "step P r e =
     (case e of
        Call_init \<Rightarrow>
          (case init_begin (session r) of
             Returned \<Rightarrow> r
           | Suspended \<Rightarrow> r\<lparr>suspended := suspended r + 1\<rparr>)
      | Resume_init \<Rightarrow>
          (if suspended r = 0 then r
           else
             (let (s', g') = init_resume P (entropy r) (session r)
              in r\<lparr>session := s', entropy := g', suspended := suspended r - 1\<rparr>)))"

definition run :: "curve_prims \<Rightarrow> runtime \<Rightarrow> event list \<Rightarrow> runtime" where
  "run P r es = foldl (step P) r es"

definition ed25519PublicKey :: "SecureChatService \<Rightarrow> exn + bytes" where
  "ed25519PublicKey s =
     (case ed25519 s of None \<Rightarrow> Inl uninitialized | Some kp \<Rightarrow> Inr (publicKey kp))"

definition x25519PublicKey :: "SecureChatService \<Rightarrow> exn + bytes" where
  "x25519PublicKey s =
     (case x25519 s of None \<Rightarrow> Inl uninitialized | Some kp \<Rightarrow> Inr (publicKey kp))"

definition signDHPublicKey :: "curve_prims \<Rightarrow> SecureChatService \<Rightarrow> exn + bytes" where
  "signDHPublicKey P s =
     (case (ed25519 s, x25519 s) of
        (Some ed, Some x) \<Rightarrow> crypto_sign_detached P (publicKey x) (privateKey ed)
      | _ \<Rightarrow> Inl uninitialized)"

definition computeSharedKey :: "curve_prims \<Rightarrow> SecureChatService \<Rightarrow> bytes
                                  \<Rightarrow> exn + bytes \<times> SecureChatService" where
  "computeSharedKey P s peerPublicKey =
     (case x25519 s of
        None \<Rightarrow> Inl uninitialized
      | Some kp \<Rightarrow>
          (case crypto_scalarmult P (privateKey kp) peerPublicKey of
             Inl e \<Rightarrow> Inl e
           | Inr k \<Rightarrow> Inr (k, s\<lparr>sharedKey := Some k\<rparr>)))"

definition encryptAEAD :: "rng \<Rightarrow> SecureChatService \<Rightarrow> jsstring \<Rightarrow> exn + envelope \<times> rng" where
  "encryptAEAD g s message =
     (case sharedKey s of
        None \<Rightarrow> Inl no_shared_key
      | Some k \<Rightarrow>
          (let (n, g') = randombytes_buf crypto_aead_chacha20poly1305_ietf_NPUBBYTES g;
               plaintext = from_string message
           in case crypto_aead_chacha20poly1305_ietf_encrypt plaintext None None n k of
                Inl e \<Rightarrow> Inl e
              | Inr c \<Rightarrow> Inr (\<lparr>nonce = n, ciphertext = c\<rparr>, g')))"

definition decryptAEAD :: "SecureChatService \<Rightarrow> bytes \<Rightarrow> bytes \<Rightarrow> exn + jsstring" where
  "decryptAEAD s c n =
     (case sharedKey s of
        None \<Rightarrow> Inl no_shared_key
      | Some k \<Rightarrow>
          (case crypto_aead_chacha20poly1305_ietf_decrypt None c None n k of
             Inl e \<Rightarrow> Inl e
           | Inr plaintext \<Rightarrow> to_string plaintext))"

definition encryptRaw :: "rng \<Rightarrow> SecureChatService \<Rightarrow> jsstring \<Rightarrow> exn + envelope \<times> rng" where
  "encryptRaw g s message =
     (case sharedKey s of
        None \<Rightarrow> Inl no_shared_key
      | Some k \<Rightarrow>
          (let (n, g') = randombytes_buf 8 g;
               plaintext = from_string message;
               dst = replicate (length plaintext) 0
           in case streamXOR k n plaintext dst of
                Inl e \<Rightarrow> Inl e
              | Inr c \<Rightarrow> Inr (\<lparr>nonce = n, ciphertext = c\<rparr>, g')))"

definition decryptRaw :: "SecureChatService \<Rightarrow> bytes \<Rightarrow> bytes \<Rightarrow> exn + jsstring" where
  "decryptRaw s c n =
     (case sharedKey s of
        None \<Rightarrow> Inl no_shared_key
      | Some k \<Rightarrow>
          (let dst = replicate (length c) 0
           in case streamXOR k n c dst of
                Inl e \<Rightarrow> Inl e
              | Inr plaintext \<Rightarrow> to_string plaintext))"

definition encryptRawFixedNonce :: "SecureChatService \<Rightarrow> jsstring \<Rightarrow> exn + bytes" where
  "encryptRawFixedNonce s message =
     (case sharedKey s of
        None \<Rightarrow> Inl no_shared_key
      | Some k \<Rightarrow>
          (let plaintext = TextEncoder_encode message;
               c = replicate (length plaintext) 0
           in streamXOR k fixedNonce plaintext c))"

definition decryptRawFixedNonce :: "SecureChatService \<Rightarrow> bytes \<Rightarrow> exn + jsstring" where
  "decryptRawFixedNonce s c =
     (case sharedKey s of
        None \<Rightarrow> Inl no_shared_key
      | Some k \<Rightarrow>
          (let plaintext = replicate (length c) 0
           in case streamXOR k fixedNonce c plaintext of
                Inl e \<Rightarrow> Inl e
              | Inr decrypted \<Rightarrow> TextDecoder_decode False decrypted))"

definition exportPublicIdentity :: "curve_prims \<Rightarrow> SecureChatService \<Rightarrow> exn + PublicIdentity" where
  "exportPublicIdentity P s =
     (case (ed25519 s, x25519 s) of
        (Some ed, Some x) \<Rightarrow>
          (case signDHPublicKey P s of
             Inl e \<Rightarrow> Inl e
           | Inr sig \<Rightarrow>
               Inr \<lparr>ed25519PublicKey_of = publicKey ed, dhPublicKey = publicKey x,
                    dhSignature = sig\<rparr>)
      | _ \<Rightarrow> Inl uninitialized)"

definition verifyDHSignature :: "curve_prims \<Rightarrow> bytes \<Rightarrow> bytes \<Rightarrow> bytes \<Rightarrow> exn + bool" where
  "verifyDHSignature P dh_public_key signature ed25519_public_key =
     crypto_sign_verify_detached P signature dh_public_key ed25519_public_key"

definition hexToUint8Array :: "jsstring \<Rightarrow> exn + bytes" where
  "hexToUint8Array hexString = from_hex hexString"

text \<open>A hexadecimal digit, as a code unit of a string: 0-9, A-F or a-f.\<close>

definition is_hex_unit :: "16 word \<Rightarrow> bool" where
  "is_hex_unit c =
     ((0x30 \<le> unat c \<and> unat c \<le> 0x39) \<or> (0x41 \<le> unat c \<and> unat c \<le> 0x46) \<or>
      (0x61 \<le> unat c \<and> unat c \<le> 0x66))"

text \<open>
  The states a session can be in: those reached from a fresh instance by \<^verbatim>\<open>init\<close>,
  awaited or resumed after other calls have run, and by calls of \<^verbatim>\<open>computeSharedKey\<close>
  that return, the two methods that assign fields.
\<close>

inductive reachable :: "curve_prims \<Rightarrow> SecureChatService \<Rightarrow> bool" for P where
  fresh: "reachable P new_SecureChatService"
| after_init: "reachable P s \<Longrightarrow> reachable P (fst (init P g s))"
| after_resume: "reachable P s \<Longrightarrow> reachable P (fst (init_resume P g s))"
| after_computeSharedKey:
    "reachable P s \<Longrightarrow> computeSharedKey P s peer = Inr (k, s') \<Longrightarrow> reachable P s'"


text \<open>
  The invariant of the reachable states: the key pairs are there exactly when the
  session is ready, the exchange public key is the base point multiplied by the private
  key, and a shared key is the 32 bytes that \<^verbatim>\<open>crypto_scalarmult\<close> returned.
\<close>

definition session_inv :: "curve_prims \<Rightarrow> SecureChatService \<Rightarrow> bool" where
  "session_inv P s =
     ((isReady s \<longleftrightarrow> ed25519 s \<noteq> None) \<and> (isReady s \<longleftrightarrow> x25519 s \<noteq> None) \<and>
      (case sharedKey s of None \<Rightarrow> True | Some k \<Rightarrow> length k = 32 \<and> isReady s) \<and>
      (case x25519 s of None \<Rightarrow> True
       | Some kp \<Rightarrow> publicKey kp = crypto_scalarmult_base P (privateKey kp) \<and>
                    length (privateKey kp) = 32))"

text \<open>
  An instance of the parameters for concrete runs: the classical Diffie-Hellman group
  of the residues modulo \<open>2^255\<close> under multiplication, where the multiple of \<open>u\<close>
  by \<open>n\<close> is the power \<open>u^n\<close>; a random source that counts upwards; a peer's public
  key; and the session of a party that has initialized and computed the shared key
  with that peer.
\<close>

definition example_prims :: curve_prims where
  "example_prims =
     \<lparr>sign_seed_keypair = (\<lambda>seed. (seed, seed @ seed)),
      sign_detached = (\<lambda>m sk. take 32 sk @ take 32 m),
      sign_verify_detached = (\<lambda>sig m pk. sig = pk @ take 32 m),
      scalarmult_u = (\<lambda>n u. u ^ n mod 2 ^ 255)\<rparr>"

definition example_rng :: rng where
  "example_rng = (\<lambda>i. of_nat (i + 1))"

definition example_peer :: bytes where
  "example_peer = crypto_scalarmult_base example_prims (replicate 32 7)"

definition example_session :: SecureChatService where
  "example_session =
     (case computeSharedKey example_prims
             (fst (init example_prims example_rng new_SecureChatService)) example_peer of
        Inr (k, s) \<Rightarrow> s
      | Inl e \<Rightarrow> new_SecureChatService)"

text \<open>
  The error of a failed authenticated decryption, the check of the tag that decides it,
  and the round trips: what the session reads back from what it wrote.
\<close>

definition authentication_failure :: exn where
  "authentication_failure = Error (ascii ''ciphertext cannot be decrypted using that key'')"

definition tag_verifies :: "bytes \<Rightarrow> bytes \<Rightarrow> bytes \<Rightarrow> bool" where
  "tag_verifies k n c = (aead_mac (take (length c - 16) c) [] n k = drop (length c - 16) c)"

definition roundtripAEAD :: "rng \<Rightarrow> SecureChatService \<Rightarrow> jsstring \<Rightarrow> exn + jsstring" where
  "roundtripAEAD g s m =
     (case encryptAEAD g s m of
        Inl e \<Rightarrow> Inl e
      | Inr (env, g') \<Rightarrow> decryptAEAD s (ciphertext env) (nonce env))"

definition roundtripRaw :: "rng \<Rightarrow> SecureChatService \<Rightarrow> jsstring \<Rightarrow> exn + jsstring" where
  "roundtripRaw g s m =
     (case encryptRaw g s m of
        Inl e \<Rightarrow> Inl e
      | Inr (env, g') \<Rightarrow> decryptRaw s (ciphertext env) (nonce env))"

definition roundtripRawFixedNonce :: "SecureChatService \<Rightarrow> jsstring \<Rightarrow> exn + jsstring" where
  "roundtripRawFixedNonce s m =
     (case encryptRawFixedNonce s m of
        Inl e \<Rightarrow> Inl e
      | Inr c \<Rightarrow> decryptRawFixedNonce s c)"

definition tag_verifies_in :: "SecureChatService \<Rightarrow> bytes \<Rightarrow> bytes \<Rightarrow> bool" where
  "tag_verifies_in s n c =
     (case sharedKey s of None \<Rightarrow> False | Some k \<Rightarrow> tag_verifies k n c)"

text \<open>
  The exceptions that the libraries throw for an argument of the wrong size, for text
  that is not hexadecimal and for bytes that are not UTF-8.
\<close>

definition malformed_input_errors :: "exn list" where
  "malformed_input_errors =
     [TypeError (ascii ''ciphertext is too short''),
      TypeError (ascii ''invalid public_nonce length''),
      TypeError (ascii ''invalid key length''),
      TypeError (ascii ''invalid privateKey length''),
      TypeError (ascii ''invalid publicKey length''),
      TypeError (ascii ''invalid signature length''),
      TypeError (ascii ''The encoded data was not valid.''),
      Error (ascii ''invalid input''),
      Error (ascii ''incomplete input''),
      Error (ascii ''ChaCha: key size must be 32 bytes''),
      Error (ascii ''ChaCha: destination is shorter than source''),
      Error (ascii ''ChaCha nonce must be 8 or 12 bytes'')]"

text \<open>
  The explicit-nonce stream scheme specialized to a nonce of eight zero bytes: the body
  of \<^verbatim>\<open>encryptRaw\<close> with that nonce in place of the random one.  And the decryption of
  a fixed-nonce ciphertext by \<^verbatim>\<open>decryptRaw\<close> under eight zero bytes.
\<close>

definition stream_scheme_zero_nonce :: "SecureChatService \<Rightarrow> jsstring \<Rightarrow> exn + bytes" where
  "stream_scheme_zero_nonce s m =
     (case sharedKey s of
        None \<Rightarrow> Inl no_shared_key
      | Some k \<Rightarrow>
          streamXOR k (replicate 8 0) (from_string m) (replicate (length (from_string m)) 0))"

definition decrypt_fixed_as_raw :: "SecureChatService \<Rightarrow> jsstring \<Rightarrow> exn + jsstring" where
  "decrypt_fixed_as_raw s m =
     (case encryptRawFixedNonce s m of
        Inl e \<Rightarrow> Inl e
      | Inr c \<Rightarrow> decryptRaw s c [0, 0, 0, 0, 0, 0, 0, 0])"

text \<open>
  What the key agreement takes from Curve25519.  The multiples of the base point form a
  group on which the scalars act by multiplication, \<open>a(bG) = (ab)G\<close>, as the comment
  in \<^verbatim>\<open>computeSharedKey\<close> writes it; a u-coordinate is a residue modulo \<open>2^255 - 19\<close>;
  and the product of two clamped scalars does not annihilate the base point, whose
  order is a prime above \<open>2^252\<close>.
\<close>

definition scalar_multiplication :: "curve_prims \<Rightarrow> bool" where
  "scalar_multiplication P =
     ((\<forall>a b. scalarmult_u P a (scalarmult_u P b 9) = scalarmult_u P (a * b) 9) \<and>
      (\<forall>a. scalarmult_u P a 9 < 2 ^ 255) \<and>
      (\<forall>m n. length m = 32 \<and> length n = 32 \<longrightarrow>
         scalarmult_u P (decode_scalar m * decode_scalar n) 9 \<noteq> 0))"

definition example_rng2 :: rng where
  "example_rng2 = (\<lambda>i. of_nat (2 * i + 5))"

section \<open>Encoding and decoding text\<close>

text \<open>
  The decoder gives back every well-formed string that does not begin with U+FEFF.
\<close>

lemma mod_shift: "b < m \<Longrightarrow> (k * m + b) mod m = (b::nat)"
  by simp

lemma m64: "b < 64 \<Longrightarrow> (128 + b) mod 64 = (b::nat)"
  using mod_shift [of b 64 2] by simp

lemma m32: "a < 32 \<Longrightarrow> (a + 192) mod 32 = (a::nat)"
  using mod_shift [of a 32 6] by (simp add: add.commute)

lemma m16: "a < 16 \<Longrightarrow> (a + 224) mod 16 = (a::nat)"
  using mod_shift [of a 16 14] by (simp add: add.commute)

lemma m8: "a < 8 \<Longrightarrow> (a + 240) mod 8 = (a::nat)"
  using mod_shift [of a 8 30] by (simp add: add.commute)

lemma emit_simps [simp]: "emit cp (Inr cps) = Inr (cp # cps)" "emit cp (Inl e) = Inl e"
  by (simp_all add: emit_def)

lemma dec1: "unat b1 \<le> 0x7F \<Longrightarrow>
  utf8_decode_run fatal utf8_init (b1 # rest) = emit (unat b1) (utf8_decode_run fatal utf8_init rest)"
  by (simp add: utf8_handler_def utf8_init_def)

lemma dec2:
  assumes "unat b1 = a + 0xC0" "unat b2 = 0x80 + b" "2 \<le> a" "a < 32" "b < 64"
  shows "utf8_decode_run fatal utf8_init (b1 # b2 # rest)
         = emit (a * 64 + b) (utf8_decode_run fatal utf8_init rest)"
  using assms
  by (simp add: utf8_handler_def utf8_init_def m32 m64)

lemma dec3:
  assumes "unat b1 = a + 0xE0" "unat b2 = 0x80 + b" "unat b3 = 0x80 + c"
   "a < 16" "b < 64" "c < 64" "a = 0 \<longrightarrow> 32 \<le> b" "a = 13 \<longrightarrow> b < 32"
  shows "utf8_decode_run fatal utf8_init (b1 # b2 # b3 # rest)
         = emit ((a * 64 + b) * 64 + c) (utf8_decode_run fatal utf8_init rest)"
  using assms
  by (auto simp add: utf8_handler_def utf8_init_def m16 m64)

lemma dec4:
  assumes "unat b1 = a + 0xF0" "unat b2 = 0x80 + b" "unat b3 = 0x80 + c" "unat b4 = 0x80 + d"
    "a < 5" "b < 64" "c < 64" "d < 64" "a = 0 \<longrightarrow> 16 \<le> b" "a = 4 \<longrightarrow> b < 16"
  shows "utf8_decode_run fatal utf8_init (b1 # b2 # b3 # b4 # rest)
         = emit (((a * 64 + b) * 64 + c) * 64 + d) (utf8_decode_run fatal utf8_init rest)"
  using assms
  by (auto simp add: utf8_handler_def utf8_init_def m8 m64)

lemma unat_byte: "n < 256 \<Longrightarrow> unat (of_nat n :: 8 word) = n"
  by (simp add: unat_of_nat)

lemma enc1:
  assumes "cp \<le> 0x7F"
  shows "\<exists>b1. utf8_encode_scalar cp = [b1] \<and> unat b1 = cp"
proof -
  define b1 :: byte where "b1 = of_nat cp"
  have u1: "unat b1 = cp" unfolding b1_def using assms by (intro unat_byte) simp
  have "utf8_encode_scalar cp = [b1]" using assms by (simp add: utf8_encode_scalar_def b1_def)
  then show ?thesis using u1 by blast
qed

lemma enc2:
  assumes "0x7F < cp" "cp \<le> 0x7FF"
  shows "\<exists>b1 b2 a b. utf8_encode_scalar cp = [b1, b2] \<and> unat b1 = a + 0xC0 \<and>
           unat b2 = 0x80 + b \<and> 2 \<le> a \<and> a < 32 \<and> b < 64 \<and> a * 64 + b = cp"
proof -
  define a where "a = cp div 64"
  define b where "b = cp mod 64"
  define b1 :: byte where "b1 = of_nat (a + 0xC0)"
  define b2 :: byte where "b2 = of_nat (0x80 + b)"
  have rb: "b < 64" unfolding b_def by simp
  have cp: "a * 64 + b = cp" unfolding a_def b_def by simp
  have ra: "2 \<le> a" "a < 32" using assms cp rb by linarith+
  have u1: "unat b1 = a + 0xC0" unfolding b1_def using ra by (intro unat_byte) simp
  have u2: "unat b2 = 0x80 + b" unfolding b2_def using rb by (intro unat_byte) simp
  have "utf8_encode_scalar cp = [b1, b2]"
    using assms unfolding utf8_encode_scalar_def b1_def b2_def a_def b_def by simp
  then show ?thesis using u1 u2 ra rb cp by blast
qed

lemma enc3:
  assumes "0x7FF < cp" "cp \<le> 0xFFFF" "\<not> (0xD800 \<le> cp \<and> cp \<le> 0xDFFF)"
  shows "\<exists>b1 b2 b3 a b c. utf8_encode_scalar cp = [b1, b2, b3] \<and> unat b1 = a + 0xE0 \<and>
           unat b2 = 0x80 + b \<and> unat b3 = 0x80 + c \<and> a < 16 \<and> b < 64 \<and> c < 64 \<and>
           (a = 0 \<longrightarrow> 32 \<le> b) \<and> (a = 13 \<longrightarrow> b < 32) \<and> (a * 64 + b) * 64 + c = cp"
proof -
  define x where "x = cp div 64"
  define a where "a = x div 64"
  define b where "b = x mod 64"
  define c where "c = cp mod 64"
  define b1 :: byte where "b1 = of_nat (a + 0xE0)"
  define b2 :: byte where "b2 = of_nat (0x80 + b)"
  define b3 :: byte where "b3 = of_nat (0x80 + c)"
  have rb: "b < 64" unfolding b_def by simp
  have rc: "c < 64" unfolding c_def by simp
  have xa: "a * 64 + b = x" unfolding a_def b_def by simp
  have cx: "x * 64 + c = cp" unfolding x_def c_def by simp
  have cp: "(a * 64 + b) * 64 + c = cp" using xa cx by simp
  have cpl: "4096 * a + 64 * b + c = cp" using cp by simp
  have ra: "a < 16" using assms cpl rb rc by linarith
  have lo: "a = 0 \<longrightarrow> 32 \<le> b" using assms cpl rb rc by auto
  have hi: "a = 13 \<longrightarrow> b < 32" using assms cpl rb rc by auto
  have a': "cp div 4096 = a" unfolding a_def x_def by (simp add: div_mult2_eq)
  have u1: "unat b1 = a + 0xE0" unfolding b1_def using ra by (intro unat_byte) simp
  have u2: "unat b2 = 0x80 + b" unfolding b2_def using rb by (intro unat_byte) simp
  have u3: "unat b3 = 0x80 + c" unfolding b3_def using rc by (intro unat_byte) simp
  have "utf8_encode_scalar cp = [b1, b2, b3]"
    using assms unfolding utf8_encode_scalar_def a' b1_def b2_def b3_def b_def c_def x_def
    by simp
  then show ?thesis using u1 u2 u3 ra rb rc lo hi cp by blast
qed

lemma enc4:
  assumes "0xFFFF < cp" "cp < 0x110000"
  shows "\<exists>b1 b2 b3 b4 a b c d. utf8_encode_scalar cp = [b1, b2, b3, b4] \<and>
           unat b1 = a + 0xF0 \<and> unat b2 = 0x80 + b \<and> unat b3 = 0x80 + c \<and>
           unat b4 = 0x80 + d \<and> a < 5 \<and> b < 64 \<and> c < 64 \<and> d < 64 \<and>
           (a = 0 \<longrightarrow> 16 \<le> b) \<and> (a = 4 \<longrightarrow> b < 16) \<and>
           ((a * 64 + b) * 64 + c) * 64 + d = cp"
proof -
  define x where "x = cp div 64"
  define y where "y = x div 64"
  define a where "a = y div 64"
  define b where "b = y mod 64"
  define c where "c = x mod 64"
  define d where "d = cp mod 64"
  define b1 :: byte where "b1 = of_nat (a + 0xF0)"
  define b2 :: byte where "b2 = of_nat (0x80 + b)"
  define b3 :: byte where "b3 = of_nat (0x80 + c)"
  define b4 :: byte where "b4 = of_nat (0x80 + d)"
  have rb: "b < 64" unfolding b_def by simp
  have rc: "c < 64" unfolding c_def by simp
  have rd: "d < 64" unfolding d_def by simp
  have ya: "a * 64 + b = y" unfolding a_def b_def by simp
  have xy: "y * 64 + c = x" unfolding y_def c_def by simp
  have cx: "x * 64 + d = cp" unfolding x_def d_def by simp
  have cp: "((a * 64 + b) * 64 + c) * 64 + d = cp" using ya xy cx by simp
  have cpl: "262144 * a + 4096 * b + 64 * c + d = cp" using cp by simp
  have ra: "a < 5" using assms cpl rb rc rd by linarith
  have lo: "a = 0 \<longrightarrow> 16 \<le> b" using assms cpl rb rc rd by auto
  have hi: "a = 4 \<longrightarrow> b < 16" using assms cpl rb rc rd by auto
  have y': "cp div 4096 = y" unfolding y_def x_def by (simp add: div_mult2_eq)
  have a': "cp div 262144 = a" unfolding a_def y_def x_def by (simp add: div_mult2_eq)
  have u1: "unat b1 = a + 0xF0" unfolding b1_def using ra by (intro unat_byte) simp
  have u2: "unat b2 = 0x80 + b" unfolding b2_def using rb by (intro unat_byte) simp
  have u3: "unat b3 = 0x80 + c" unfolding b3_def using rc by (intro unat_byte) simp
  have u4: "unat b4 = 0x80 + d" unfolding b4_def using rd by (intro unat_byte) simp
  have "utf8_encode_scalar cp = [b1, b2, b3, b4]"
    using assms
    unfolding utf8_encode_scalar_def a' y' b1_def b2_def b3_def b4_def b_def c_def d_def x_def
    by simp
  then show ?thesis using u1 u2 u3 u4 ra rb rc rd lo hi cp by blast
qed

lemma run_scalar:
  assumes "is_scalar cp"
  shows "utf8_decode_run fatal utf8_init (utf8_encode_scalar cp @ rest)
           = emit cp (utf8_decode_run fatal utf8_init rest)"
proof -
  consider "cp \<le> 0x7F" | "0x7F < cp \<and> cp \<le> 0x7FF"
    | "0x7FF < cp \<and> cp \<le> 0xFFFF \<and> \<not> (0xD800 \<le> cp \<and> cp \<le> 0xDFFF)"
    | "0xFFFF < cp \<and> cp < 0x110000"
    using assms unfolding is_scalar_def by linarith
  then show ?thesis
  proof cases
    case 1
    from enc1 [OF 1] obtain b1 where "utf8_encode_scalar cp = [b1]" "unat b1 = cp" by blast
    then show ?thesis using dec1 [of b1 fatal rest] 1 by simp
  next
    case 2
    with enc2 [of cp] obtain b1 b2 a b where
      e: "utf8_encode_scalar cp = [b1, b2]" and u: "unat b1 = a + 0xC0" "unat b2 = 0x80 + b"
      and r: "2 \<le> a" "a < 32" "b < 64" and c: "a * 64 + b = cp" by blast
    show ?thesis using dec2 [OF u r, of fatal rest] e c by simp
  next
    case 3
    with enc3 [of cp] obtain b1 b2 b3 a b c where
      e: "utf8_encode_scalar cp = [b1, b2, b3]"
      and u: "unat b1 = a + 0xE0" "unat b2 = 0x80 + b" "unat b3 = 0x80 + c"
      and r: "a < 16" "b < 64" "c < 64" "a = 0 \<longrightarrow> 32 \<le> b" "a = 13 \<longrightarrow> b < 32"
      and c: "(a * 64 + b) * 64 + c = cp" by blast
    show ?thesis using dec3 [OF u r, of fatal rest] e c by simp
  next
    case 4
    with enc4 [of cp] obtain b1 b2 b3 b4 a b c d where
      e: "utf8_encode_scalar cp = [b1, b2, b3, b4]"
      and u: "unat b1 = a + 0xF0" "unat b2 = 0x80 + b" "unat b3 = 0x80 + c" "unat b4 = 0x80 + d"
      and r: "a < 5" "b < 64" "c < 64" "d < 64" "a = 0 \<longrightarrow> 16 \<le> b" "a = 4 \<longrightarrow> b < 16"
      and c: "((a * 64 + b) * 64 + c) * 64 + d = cp" by blast
    show ?thesis using dec4 [OF u r, of fatal rest] e c by simp
  qed
qed

lemma needed_init: "bytes_needed utf8_init = 0"
  by (simp add: utf8_init_def)

lemma run_scalars:
  "\<forall>cp\<in>set cps. is_scalar cp \<Longrightarrow>
   utf8_decode_run fatal utf8_init (concat (map utf8_encode_scalar cps)) = Inr cps"
  by (induction cps) (simp_all add: run_scalar needed_init)

lemma no_bom_scalar:
  assumes "is_scalar cp" "cp \<noteq> 0xFEFF"
  shows "take 3 (utf8_encode_scalar cp @ rest) \<noteq> [0xEF, 0xBB, 0xBF]"
proof
  assume t: "take 3 (utf8_encode_scalar cp @ rest) = [0xEF, 0xBB, 0xBF]"
  consider "cp \<le> 0x7F" | "0x7F < cp \<and> cp \<le> 0x7FF"
    | "0x7FF < cp \<and> cp \<le> 0xFFFF \<and> \<not> (0xD800 \<le> cp \<and> cp \<le> 0xDFFF)"
    | "0xFFFF < cp \<and> cp < 0x110000"
    using assms unfolding is_scalar_def by linarith
  then show False
  proof cases
    case 1
    from enc1 [OF 1] obtain b1 where "utf8_encode_scalar cp = [b1]" "unat b1 = cp" by blast
    then show False using t 1 by (cases rest) auto
  next
    case 2
    with enc2 [of cp] obtain b1 b2 a where
      e: "utf8_encode_scalar cp = [b1, b2]" and u: "unat b1 = a + 0xC0"
      and r: "a < 32" by blast
    show False using t e u r by auto
  next
    case 3
    with enc3 [of cp] obtain b1 b2 b3 a b c where
      e: "utf8_encode_scalar cp = [b1, b2, b3]"
      and u: "unat b1 = a + 0xE0" "unat b2 = 0x80 + b" "unat b3 = 0x80 + c"
      and c: "(a * 64 + b) * 64 + c = cp" by blast
    have "b1 = 0xEF" "b2 = 0xBB" "b3 = 0xBF" using t e by auto
    then have "a = 15" "b = 59" "c = 63" using u by auto
    then show False using c assms(2) by simp
  next
    case 4
    with enc4 [of cp] obtain b1 b2 b3 b4 a where
      e: "utf8_encode_scalar cp = [b1, b2, b3, b4]" and u: "unat b1 = a + 0xF0" by blast
    show False using t e u by auto
  qed
qed

lemma unat_unit_lt: "unat (c :: 16 word) < 65536"
  using unsigned_less [of c, where 'a = nat] by simp

lemma scalar_unit:
  "\<not> is_high_surrogate c \<Longrightarrow> \<not> is_low_surrogate c \<Longrightarrow> is_scalar (unat c)"
  using unat_unit_lt [of c]
  by (auto simp: is_scalar_def is_high_surrogate_def is_low_surrogate_def)

lemma scalar_pair: "is_scalar (0x10000 + 0x400 * (h mod 0x400) + l mod 0x400)"
proof -
  have "h mod 0x400 < 0x400" "l mod 0x400 < 0x400" by simp_all
  then show ?thesis unfolding is_scalar_def by linarith
qed

lemma scalars_well_formed:
  "well_formed s \<Longrightarrow> \<forall>cp\<in>set (to_scalar_values s). is_scalar cp"
  by (induction s rule: to_scalar_values.induct)
     (auto simp: scalar_unit scalar_pair split: if_splits)

lemma utf16_unit:
  "\<not> is_high_surrogate c \<Longrightarrow> \<not> is_low_surrogate c \<Longrightarrow> utf16_encode_scalar (unat c) = [c]"
  using unat_unit_lt [of c] by (simp add: utf16_encode_scalar_def)

lemma utf16_pair:
  assumes "is_high_surrogate h" "is_low_surrogate l"
  shows "utf16_encode_scalar (0x10000 + 0x400 * (unat h mod 0x400) + unat l mod 0x400) = [h, l]"
proof -
  define x where "x = unat h mod 0x400"
  define y where "y = unat l mod 0x400"
  have rx: "x < 0x400" and ry: "y < 0x400" unfolding x_def y_def by simp_all
  have "unat h div 0x400 = 54" using assms(1) unfolding is_high_surrogate_def
    by (intro div_nat_eqI) simp_all
  then have h: "unat h = 0xD800 + x" using div_mult_mod_eq [of "unat h" "0x400"] x_def by simp
  have "unat l div 0x400 = 55" using assms(2) unfolding is_low_surrogate_def
    by (intro div_nat_eqI) simp_all
  then have l: "unat l = 0xDC00 + y" using div_mult_mod_eq [of "unat l" "0x400"] y_def by simp
  have d: "(0x400 * x + y) div 0x400 = x" using ry by simp
  have m: "(0x400 * x + y) mod 0x400 = y" using ry by simp
  have "utf16_encode_scalar (0x10000 + 0x400 * x + y)
          = [of_nat (0xD800 + x), of_nat (0xDC00 + y)]"
    unfolding utf16_encode_scalar_def using d m by (simp add: add.assoc)
  also have "\<dots> = [of_nat (unat h), of_nat (unat l)]" using h l by simp
  finally show ?thesis unfolding x_def y_def by simp
qed

lemma utf16_roundtrip:
  "well_formed s \<Longrightarrow> concat (map utf16_encode_scalar (to_scalar_values s)) = s"
  by (induction s rule: to_scalar_values.induct)
     (auto simp: utf16_unit utf16_pair split: if_splits)

lemma no_bom:
  assumes "well_formed s" "take 1 s \<noteq> [0xFEFF]"
  shows "take 3 (TextEncoder_encode s) \<noteq> [0xEF, 0xBB, 0xBF]"
proof (cases "to_scalar_values s")
  case Nil
  then show ?thesis by (simp add: TextEncoder_encode_def)
next
  case (Cons cp cps)
  have sc: "is_scalar cp" using scalars_well_formed [OF assms(1)] Cons by simp
  have "cp \<noteq> 0xFEFF"
  proof (cases s rule: to_scalar_values.cases)
    case 1
    then show ?thesis using Cons by simp
  next
    case (2 c)
    then have "cp = unat c" "c \<noteq> 0xFEFF" using Cons assms by (auto split: if_splits)
    then show ?thesis by (auto simp: word_unat_eq_iff)
  next
    case (3 c d cs)
    show ?thesis
    proof (cases "is_high_surrogate c")
      case True
      then have "cp = 0x10000 + 0x400 * (unat c mod 0x400) + unat d mod 0x400"
        using 3 Cons assms by (auto split: if_splits)
      then show ?thesis by simp
    next
      case False
      then have "cp = unat c" "c \<noteq> 0xFEFF" using 3 Cons assms by (auto split: if_splits)
      then show ?thesis by (auto simp: word_unat_eq_iff)
    qed
  qed
  then show ?thesis
    using no_bom_scalar [OF sc, of "concat (map utf8_encode_scalar cps)"] Cons
    by (simp add: TextEncoder_encode_def)
qed

lemma text_roundtrip:
  assumes "well_formed s" "take 1 s \<noteq> [0xFEFF]"
  shows "TextDecoder_decode fatal (TextEncoder_encode s) = Inr s"
  using no_bom [OF assms] run_scalars [OF scalars_well_formed [OF assms(1)], of fatal]
        utf16_roundtrip [OF assms(1)]
  by (simp add: TextDecoder_decode_def TextEncoder_encode_def)


section \<open>The states of a session\<close>

lemma length_le_bytes [simp]: "length (le_bytes k n) = k"
  by (induction k arbitrary: n) simp_all

lemma length_crypto_scalarmult:
  "crypto_scalarmult P sk pk = Inr k \<Longrightarrow> length k = 32"
  by (auto simp: crypto_scalarmult_def Let_def split: if_splits)

lemma init_ready: "isReady (fst (init P g s))"
  by (simp add: init_def init_begin_def init_resume_def split_beta Let_def)

lemma init_when_ready: "isReady s \<Longrightarrow> init P g s = (s, g)"
  by (simp add: init_def init_begin_def)

lemma init_when_not_ready: "\<not> isReady s \<Longrightarrow> init P g s = init_resume P g s"
  by (simp add: init_def init_begin_def)

lemma init_resume_fields:
  "\<exists>ed sk. fst (init_resume P g s) =
     s\<lparr>ed25519 := Some ed,
       x25519 := Some \<lparr>publicKey = crypto_scalarmult_base P sk, privateKey = sk\<rparr>,
       isReady := True\<rparr> \<and> length sk = 32"
  by (rule exI [of _ "fst (crypto_sign_keypair P g)"],
      rule exI [of _ "map (snd (crypto_sign_keypair P g)) [0..<32]"])
     (simp add: init_resume_def split_beta Let_def crypto_box_keypair_def randombytes_buf_def)

lemma init_fields:
  "\<not> isReady s \<Longrightarrow>
   \<exists>ed sk. fst (init P g s) =
     s\<lparr>ed25519 := Some ed,
       x25519 := Some \<lparr>publicKey = crypto_scalarmult_base P sk, privateKey = sk\<rparr>,
       isReady := True\<rparr> \<and> length sk = 32"
  using init_resume_fields [of P g s] by (simp add: init_when_not_ready)

lemma reachable_inv: "reachable P s \<Longrightarrow> session_inv P s"
proof (induction rule: reachable.induct)
  case fresh
  show ?case by (simp add: session_inv_def new_SecureChatService_def)
next
  case (after_init s g)
  show ?case
  proof (cases "isReady s")
    case True
    then show ?thesis using after_init.IH by (simp add: init_when_ready)
  next
    case False
    from init_fields [OF False, of P g] obtain ed sk where
      "fst (init P g s) = s\<lparr>ed25519 := Some ed,
         x25519 := Some \<lparr>publicKey = crypto_scalarmult_base P sk, privateKey = sk\<rparr>,
         isReady := True\<rparr>" "length sk = 32" by blast
    then show ?thesis using after_init.IH False
      by (auto simp: session_inv_def split: option.splits)
  qed
next
  case (after_resume s g)
  from init_resume_fields [of P g s] obtain ed sk where
    "fst (init_resume P g s) = s\<lparr>ed25519 := Some ed,
       x25519 := Some \<lparr>publicKey = crypto_scalarmult_base P sk, privateKey = sk\<rparr>,
       isReady := True\<rparr>" "length sk = 32" by blast
  then show ?case using after_resume.IH
    by (auto simp: session_inv_def split: option.splits)
next
  case (after_computeSharedKey s peer k s')
  then show ?case
    by (auto simp: session_inv_def computeSharedKey_def
             dest: length_crypto_scalarmult split: option.splits sum.splits)
qed

lemma reachable_step: "reachable P (session r) \<Longrightarrow> reachable P (session (step P r e))"
  by (cases e)
     (auto simp: step_def split_beta Let_def intro: reachable.after_resume
           split: init_call.splits)

lemma reachable_run: "reachable P (session r) \<Longrightarrow> reachable P (session (run P r es))"
  unfolding run_def by (induction es arbitrary: r) (simp_all add: reachable_step)

text \<open>
  C6.  Each of the six encryption and decryption methods of an instance throws the
  no-shared-key error, whatever the message, ciphertext or nonce, when no shared key is
  stored in the session.
\<close>

theorem no_shared_key_fails:
  assumes "sharedKey s = None"
  shows "encryptAEAD g s m = Inl no_shared_key \<and>
         decryptAEAD s c n = Inl no_shared_key \<and>
         encryptRaw g s m = Inl no_shared_key \<and>
         decryptRaw s c n = Inl no_shared_key \<and>
         encryptRawFixedNonce s m = Inl no_shared_key \<and>
         decryptRawFixedNonce s c = Inl no_shared_key"
  using assms
  by (simp add: encryptAEAD_def decryptAEAD_def encryptRaw_def decryptRaw_def
                encryptRawFixedNonce_def decryptRawFixedNonce_def)

theorem no_shared_key_fails_witness:
  "sharedKey (fst (init example_prims example_rng new_SecureChatService)) = None \<and>
   encryptAEAD example_rng (fst (init example_prims example_rng new_SecureChatService))
     (ascii ''hello'') = Inl no_shared_key \<and>
   decryptRawFixedNonce (fst (init example_prims example_rng new_SecureChatService))
     [1, 2, 3] = Inl no_shared_key"
proof -
  have h: "sharedKey (fst (init example_prims example_rng new_SecureChatService)) = None"
    by (simp add: init_def init_begin_def init_resume_def new_SecureChatService_def
          split_beta Let_def)
  show ?thesis
    using h no_shared_key_fails [OF h, of example_rng "ascii ''hello''" "[1, 2, 3]" "[]"]
    by simp
qed

text \<open>
  C7.  On a session on which \<^verbatim>\<open>init\<close> has not completed, the two public-key accessors,
  \<^verbatim>\<open>signDHPublicKey\<close>, \<^verbatim>\<open>computeSharedKey\<close> and \<^verbatim>\<open>exportPublicIdentity\<close> throw the
  uninitialized error.
\<close>

theorem uninitialized_fails:
  assumes "reachable P s" "\<not> isReady s"
  shows "ed25519PublicKey s = Inl uninitialized \<and>
         x25519PublicKey s = Inl uninitialized \<and>
         signDHPublicKey P s = Inl uninitialized \<and>
         computeSharedKey P s peer = Inl uninitialized \<and>
         exportPublicIdentity P s = Inl uninitialized"
  using reachable_inv [OF assms(1)] assms(2)
  by (simp add: session_inv_def ed25519PublicKey_def x25519PublicKey_def signDHPublicKey_def
                computeSharedKey_def exportPublicIdentity_def)

theorem uninitialized_fails_witness:
  "reachable example_prims new_SecureChatService \<and> \<not> isReady new_SecureChatService \<and>
   ed25519PublicKey new_SecureChatService = Inl uninitialized \<and>
   x25519PublicKey new_SecureChatService = Inl uninitialized \<and>
   signDHPublicKey example_prims new_SecureChatService = Inl uninitialized \<and>
   computeSharedKey example_prims new_SecureChatService (replicate 32 9) = Inl uninitialized \<and>
   exportPublicIdentity example_prims new_SecureChatService = Inl uninitialized"
proof -
  have r: "reachable example_prims new_SecureChatService" by (rule reachable.fresh)
  have n: "\<not> isReady new_SecureChatService" by (simp add: new_SecureChatService_def)
  show ?thesis using r n uninitialized_fails [OF r n, of "replicate 32 9"] by simp
qed

text \<open>
  Awaited calls are idempotent: a call of \<^verbatim>\<open>init\<close> on a session on which an earlier
  call has completed returns the session as it is and draws no random bytes, and so
  does any number of later calls.
\<close>

lemma init_awaited_idempotent:
  "init P g' (fst (init P g s)) = (fst (init P g s), g') \<and>
   foldl (\<lambda>s g. fst (init P g s)) (fst (init P g s)) gs = fst (init P g s)"
proof -
  have one: "\<And>g'. init P g' (fst (init P g s)) = (fst (init P g s), g')"
    by (rule init_when_ready) (rule init_ready)
  have "foldl (\<lambda>s g. fst (init P g s)) (fst (init P g s)) gs = fst (init P g s)"
    by (induction gs) (simp_all add: one)
  then show ?thesis using one by simp
qed

lemma run_awaited:
  "session (run P (boot g) [Call_init, Resume_init, Call_init, Resume_init])
     = session (run P (boot g) [Call_init, Resume_init]) \<and>
   session (run P (boot g) [Call_init, Resume_init]) = fst (init P g new_SecureChatService)"
  by (simp add: run_def step_def boot_def init_def init_begin_def init_resume_def
        new_SecureChatService_def split_beta Let_def)

lemma example_seed_differs:
  "a \<noteq> b \<Longrightarrow> a < 128 \<Longrightarrow> b < 128 \<Longrightarrow>
   map (\<lambda>i. example_rng (i + a)) [0..<32] \<noteq> map (\<lambda>i. example_rng (i + b)) [0..<32]"
proof
  assume ab: "a \<noteq> b" and a: "a < 128" and b: "b < 128"
  assume "map (\<lambda>i. example_rng (i + a)) [0..<32] = map (\<lambda>i. example_rng (i + b)) [0..<32]"
  then have "map (\<lambda>i. example_rng (i + a)) [0..<32] ! 0
               = map (\<lambda>i. example_rng (i + b)) [0..<32] ! 0"
    by (rule arg_cong)
  then have "example_rng a = example_rng b" by simp
  then have "unat (example_rng a) = unat (example_rng b)" by (rule arg_cong)
  moreover have "unat (example_rng i) = (i + 1) mod 256" for i
    unfolding example_rng_def unat_of_nat by simp
  ultimately have "(a + 1) mod 256 = (b + 1) mod 256" by simp
  then have "a = b" using a b by simp
  then show False using ab by simp
qed

text \<open>
  C8.  \<^verbatim>\<open>init\<close> is to be idempotent: a second call a no-op that leaves the key pairs
  and the flag as after the first.  The code tests \<^verbatim>\<open>_isReady\<close> before the \<^verbatim>\<open>await\<close> and
  sets it after, so the claim fails for a second call made while the first is
  suspended: when the first call is resumed the session is ready with its key pairs,
  and when the second is resumed both key pairs are generated again and replaced.
\<close>

theorem init_overlapping_calls:
  "init_begin (session (run example_prims (boot example_rng) [Call_init])) = Suspended \<and>
   isReady (session (run example_prims (boot example_rng)
              [Call_init, Call_init, Resume_init])) \<and>
   ed25519 (session (run example_prims (boot example_rng)
              [Call_init, Call_init, Resume_init, Resume_init]))
     \<noteq> ed25519 (session (run example_prims (boot example_rng)
              [Call_init, Call_init, Resume_init])) \<and>
   x25519 (session (run example_prims (boot example_rng)
              [Call_init, Call_init, Resume_init, Resume_init]))
     \<noteq> x25519 (session (run example_prims (boot example_rng)
              [Call_init, Call_init, Resume_init]))"
proof -
  let ?P = example_prims and ?g = example_rng
  let ?s0 = new_SecureChatService
  let ?s1 = "fst (init_resume ?P ?g ?s0)"
  let ?g1 = "snd (init_resume ?P ?g ?s0)"
  let ?s2 = "fst (init_resume ?P ?g1 ?s1)"
  have g1: "?g1 = (\<lambda>i. ?g (i + 64))"
    by (simp add: init_resume_def crypto_sign_keypair_def crypto_box_keypair_def
          randombytes_buf_def split_beta Let_def add.commute add.left_commute)
  have r1: "init_begin (session (run ?P (boot ?g) [Call_init])) = Suspended"
    by (simp add: run_def step_def boot_def init_begin_def new_SecureChatService_def)
  have r3: "session (run ?P (boot ?g) [Call_init, Call_init, Resume_init]) = ?s1"
    by (simp add: run_def step_def boot_def init_begin_def new_SecureChatService_def
          split_beta Let_def)
  have r4: "session (run ?P (boot ?g) [Call_init, Call_init, Resume_init, Resume_init]) = ?s2"
    by (simp add: run_def step_def boot_def init_begin_def new_SecureChatService_def
          split_beta Let_def)
  have ready: "isReady ?s1"
    by (simp add: init_resume_def split_beta Let_def)
  have ed: "ed25519 (fst (init_resume ?P h s))
              = Some \<lparr>publicKey = map h [0..<32],
                       privateKey = map h [0..<32] @ map h [0..<32]\<rparr>" for h s
    by (simp add: init_resume_def crypto_sign_keypair_def randombytes_buf_def
          example_prims_def buf_def split_beta Let_def)
  have x: "\<exists>pk. x25519 (fst (init_resume ?P h s))
              = Some \<lparr>publicKey = pk, privateKey = map (\<lambda>i. h (i + 32)) [0..<32]\<rparr>" for h s
    by (simp add: init_resume_def crypto_sign_keypair_def crypto_box_keypair_def
          randombytes_buf_def split_beta Let_def add.commute)
  have d0: "map (\<lambda>i. ?g (i + 64)) [0..<32] \<noteq> map (\<lambda>i. ?g (i + 0)) [0..<32]"
    by (rule example_seed_differs) simp_all
  have d1: "map (\<lambda>i. ?g (i + 96)) [0..<32] \<noteq> map (\<lambda>i. ?g (i + 32)) [0..<32]"
    by (rule example_seed_differs) simp_all
  have "ed25519 ?s2 \<noteq> ed25519 ?s1"
  proof
    assume "ed25519 ?s2 = ed25519 ?s1"
    then have "map ?g1 [0..<32] = map ?g [0..<32]"
      unfolding ed by simp
    then have "map (\<lambda>i. ?g (i + 64)) [0..<32] = map (\<lambda>i. ?g (i + 0)) [0..<32]"
      unfolding g1 by simp
    with d0 show False by simp
  qed
  moreover have "x25519 ?s2 \<noteq> x25519 ?s1"
  proof
    assume e: "x25519 ?s2 = x25519 ?s1"
    from x [of ?g1 ?s1] obtain pk2 where
      p2: "x25519 ?s2 = Some \<lparr>publicKey = pk2, privateKey = map (\<lambda>i. ?g1 (i + 32)) [0..<32]\<rparr>"
      by blast
    from x [of ?g ?s0] obtain pk1 where
      p1: "x25519 ?s1 = Some \<lparr>publicKey = pk1, privateKey = map (\<lambda>i. ?g (i + 32)) [0..<32]\<rparr>"
      by blast
    from e have "map (\<lambda>i. ?g1 (i + 32)) [0..<32] = map (\<lambda>i. ?g (i + 32)) [0..<32]"
      unfolding p1 p2 by simp
    then have "map (\<lambda>i. ?g (i + 96)) [0..<32] = map (\<lambda>i. ?g (i + 32)) [0..<32]"
      unfolding g1 by (simp add: add.assoc)
    with d1 show False by simp
  qed
  ultimately show ?thesis
    unfolding r3 r4 using r1 ready by simp
qed

section \<open>The stream cipher\<close>

lemma length_quarter_round [simp]: "length (quarter_round a b c d x) = length x"
  by (simp add: quarter_round_def Let_def)

lemma length_double_round [simp]: "length (double_round x) = length x"
  by (simp add: double_round_def)

lemma length_rounds [simp]: "length ((double_round ^^ n) x) = length x"
  by (induction n) simp_all

lemma length_store32_concat: "length (concat (map store32 ws)) = 4 * length ws"
  by (induction ws) (simp_all add: store32_def)

lemma length_chacha_core [simp]: "length (chacha_core input key) = 64"
proof -
  define j where "j = chacha_state input key"
  have lj: "length j = 16" by (simp add: j_def chacha_state_def)
  have "length (map2 (+) ((double_round ^^ 10) j) j) = 16" using lj by simp
  then have "length (concat (map store32 (map2 (+) ((double_round ^^ 10) j) j))) = 64"
    by (simp only: length_store32_concat)
  then show ?thesis by (simp only: chacha_core_def Let_def j_def)
qed

lemma xor_twice:
  "length a \<le> length b \<Longrightarrow> map2 (XOR) (map2 (XOR) a b) b = (a :: bytes)"
proof (induction a arbitrary: b)
  case Nil
  then show ?case by simp
next
  case (Cons x xs)
  then show ?case by (cases b) (simp_all add: xor.assoc)
qed

lemma streamXOR_blocks_Nil [simp]: "streamXOR_blocks key nc cl [] = Inr []"
  by (simp add: streamXOR_blocks.simps)

lemma streamXOR_blocks_involution:
  "streamXOR_blocks key nc cl src = Inr out \<Longrightarrow>
   length out = length src \<and> streamXOR_blocks key nc cl out = Inr src"
proof (induction key nc cl src arbitrary: out rule: streamXOR_blocks.induct)
  case (1 key nc cl src)
  show ?case
  proof (cases "src = []")
    case True
    then show ?thesis using "1.prems" by simp
  next
    case False
    define o1 where "o1 = map2 (XOR) (take 64 src) (chacha_core nc key)"
    from "1.prems" False obtain nc' rest where
      inc: "incrementCounter nc 0 cl = Inr nc'" and
      rec: "streamXOR_blocks key nc' cl (drop 64 src) = Inr rest" and
      out: "out = o1 @ rest"
      by (subst (asm) streamXOR_blocks.simps)
         (auto simp: Let_def o1_def split: sum.splits if_splits)
    from "1.IH" [OF False refl refl inc rec]
    have lrest: "length rest = length src - 64"
      and inv: "streamXOR_blocks key nc' cl rest = Inr (drop 64 src)" by simp_all
    have lo1: "length o1 = min 64 (length src)" by (simp add: o1_def)
    have ne: "out \<noteq> []" using False out lo1 by (cases src) auto
    have tk: "take 64 out = o1" using out lo1 lrest by (auto simp: min_def)
    have dr: "drop 64 out = rest" using out lo1 lrest by (auto simp: min_def)
    have x: "map2 (XOR) o1 (chacha_core nc key) = take 64 src"
      unfolding o1_def by (rule xor_twice) simp
    have "streamXOR_blocks key nc cl out = Inr (take 64 src @ drop 64 src)"
      using ne inc inv tk dr x by (subst streamXOR_blocks.simps) (simp add: Let_def)
    moreover have "length out = length src" using out lo1 lrest by simp
    ultimately show ?thesis by simp
  qed
qed

lemma le_nat_Cons [simp]: "le_nat (b # bs) = unat b + 256 * le_nat bs"
  by (simp add: le_nat_def)

lemma le_nat_Nil [simp]: "le_nat [] = 0"
  by (simp add: le_nat_def)

lemma add_carry_value:
  "length (fst (add_carry bs c)) = length bs \<and>
   le_nat (fst (add_carry bs c)) + 256 ^ length bs * snd (add_carry bs c) = le_nat bs + c"
proof (induction bs arbitrary: c)
  case Nil
  show ?case by simp
next
  case (Cons b bs)
  define s where "s = c + unat b"
  define r where "r = add_carry bs (s div 256)"
  have m: "unat (of_nat (s mod 256) :: byte) = s mod 256"
    by (simp add: unat_of_nat)
  have ih: "length (fst r) = length bs"
    "le_nat (fst r) + 256 ^ length bs * snd r = le_nat bs + s div 256"
    using Cons [of "s div 256"] by (simp_all add: r_def)
  have e: "add_carry (b # bs) c = (of_nat (s mod 256) # fst r, snd r)"
    by (simp add: Let_def s_def r_def)
  have "le_nat (of_nat (s mod 256) # fst r) + 256 ^ length (b # bs) * snd r
          = s mod 256 + 256 * (le_nat (fst r) + 256 ^ length bs * snd r)"
    using m by (simp add: algebra_simps)
  also have "\<dots> = s mod 256 + 256 * (le_nat bs + s div 256)" using ih by simp
  also have "\<dots> = le_nat (b # bs) + c" by (simp add: s_def algebra_simps)
  finally show ?case using e ih by simp
qed

lemma incrementCounter_ok:
  assumes "le_nat (take cl nc) + 1 < 256 ^ cl" "cl \<le> length nc"
  shows "\<exists>nc'. incrementCounter nc 0 cl = Inr nc' \<and> length nc' = length nc \<and>
               le_nat (take cl nc') = le_nat (take cl nc) + 1"
proof -
  define r where "r = add_carry (take cl nc) 1"
  have l: "length (fst r) = cl"
    and v: "le_nat (fst r) + 256 ^ cl * snd r = le_nat (take cl nc) + 1"
    using add_carry_value [of "take cl nc" 1] assms(2) by (simp_all add: r_def)
  have z: "snd r = 0"
  proof (rule ccontr)
    assume "snd r \<noteq> 0"
    then have "(256::nat) ^ cl \<le> 256 ^ cl * snd r" by simp
    with v assms(1) show False by linarith
  qed
  have "incrementCounter nc 0 cl = Inr (fst r @ drop cl nc)"
    using z by (simp add: incrementCounter_def r_def Let_def)
  moreover have "length (fst r @ drop cl nc) = length nc" using l assms(2) by simp
  moreover have "le_nat (take cl (fst r @ drop cl nc)) = le_nat (take cl nc) + 1"
    using l v z by simp
  ultimately show ?thesis by blast
qed

lemma blocks_drop: "n \<noteq> 0 \<Longrightarrow> (n - 64 + 63) div 64 + 1 = (n + 63) div (64::nat)"
  by (cases "n < 64") simp_all

lemma streamXOR_blocks_ok:
  "cl \<le> length nc \<Longrightarrow> le_nat (take cl nc) + (length src + 63) div 64 < 256 ^ cl \<Longrightarrow>
   \<exists>out. streamXOR_blocks key nc cl src = Inr out"
proof (induction key nc cl src rule: streamXOR_blocks.induct)
  case (1 key nc cl src)
  show ?case
  proof (cases "src = []")
    case True
    then show ?thesis by simp
  next
    case False
    then have n: "(length src - 64 + 63) div 64 + 1 = (length src + 63) div 64"
      by (intro blocks_drop) simp
    then have "le_nat (take cl nc) + 1 < 256 ^ cl" using "1.prems"(2) by linarith
    from incrementCounter_ok [OF this "1.prems"(1)] obtain nc' where
      inc: "incrementCounter nc 0 cl = Inr nc'" and l: "length nc' = length nc"
      and v: "le_nat (take cl nc') = le_nat (take cl nc) + 1" by blast
    have "le_nat (take cl nc') + (length (drop 64 src) + 63) div 64 < 256 ^ cl"
      using v n "1.prems"(2) by simp
    with "1.IH" [OF False refl refl inc] l "1.prems"(1)
    obtain rest where "streamXOR_blocks key nc' cl (drop 64 src) = Inr rest" by auto
    then show ?thesis using False inc
      by (subst streamXOR_blocks.simps) (simp add: Let_def)
  qed
qed

lemma le_nat_replicate_0 [simp]: "le_nat (replicate n 0) = 0"
  by (induction n) simp_all

lemma streamXOR_roundtrip:
  assumes "length k = 32" "length n = 8" "length src < 2 ^ 60"
  shows "\<exists>out. streamXOR k n src (replicate (length src) 0) = Inr out \<and>
               length out = length src \<and>
               streamXOR k n out (replicate (length out) 0) = Inr src"
proof -
  define nc where "nc = replicate 8 0 @ n"
  have "(length src + 63) div 64 < 2 ^ 60" using assms(3) by simp
  then have "le_nat (take 8 nc) + (length src + 63) div 64 < 256 ^ 8"
    by (simp add: nc_def)
  moreover have "8 \<le> length nc" by (simp add: nc_def)
  ultimately obtain out where o: "streamXOR_blocks k nc 8 src = Inr out"
    using streamXOR_blocks_ok [of 8 nc src k] by blast
  from streamXOR_blocks_involution [OF o]
  have l: "length out = length src" and b: "streamXOR_blocks k nc 8 out = Inr src" by simp_all
  have "streamXOR k n src (replicate (length src) 0) = Inr out"
    using assms(1,2) o by (simp add: streamXOR_def nc_def)
  moreover have "streamXOR k n out (replicate (length out) 0) = Inr src"
    using assms(1,2) b l by (simp add: streamXOR_def nc_def)
  ultimately show ?thesis using l by blast
qed

lemma length_utf8_encode_scalar: "utf8_encode_scalar cp \<noteq> [] \<and>
  length (utf8_encode_scalar cp) \<le> (if cp \<le> 0xFFFF then 3 else 4)"
  by (simp add: utf8_encode_scalar_def)

lemma length_TextEncoder_encode: "length (TextEncoder_encode s) \<le> 3 * length s"
proof (induction s rule: to_scalar_values.induct)
  case 1
  show ?case by (simp add: TextEncoder_encode_def)
next
  case (2 c)
  have "unat c \<le> 0xFFFF" using unat_unit_lt [of c] by simp
  then show ?case using length_utf8_encode_scalar [of "unat c"] length_utf8_encode_scalar [of "0xFFFD"]
    by (simp add: TextEncoder_encode_def)
next
  case (3 c d cs)
  have u: "unat c \<le> 0xFFFF" using unat_unit_lt [of c] by simp
  show ?case
    using 3 u length_utf8_encode_scalar [of "unat c"] length_utf8_encode_scalar [of "0xFFFD"]
      length_utf8_encode_scalar [of "0x10000 + 0x400 * (unat c mod 0x400) + unat d mod 0x400"]
    by (cases "is_high_surrogate c"; cases "is_low_surrogate d"; cases "is_low_surrogate c")
       (simp_all add: TextEncoder_encode_def)
qed

lemma length_String:
  assumes "is_String m"
  shows "length (TextEncoder_encode m) < 2 ^ 60"
proof -
  have "3 * length m < 3 * 2 ^ 53" using assms by (simp add: is_String_def)
  then show ?thesis using length_TextEncoder_encode [of m] by simp
qed


section \<open>Authenticated encryption\<close>

lemma chacha20_ietf_blocks_Nil [simp]: "chacha20_ietf_blocks k input [] = []"
  by (simp add: chacha20_ietf_blocks.simps)

lemma chacha20_ietf_blocks_involution:
  "length (chacha20_ietf_blocks k input m) = length m \<and>
   chacha20_ietf_blocks k input (chacha20_ietf_blocks k input m) = m"
proof (induction k input m rule: chacha20_ietf_blocks.induct)
  case (1 k input m)
  show ?case
  proof (cases "m = []")
    case True
    then show ?thesis by simp
  next
    case False
    define o1 where "o1 = map2 (XOR) (take 64 m) (chacha_core input k)"
    define input' where "input' = fst (add_carry (take 8 input) 1) @ drop 8 input"
    define rest where "rest = chacha20_ietf_blocks k input' (drop 64 m)"
    define out where "out = o1 @ rest"
    have out: "chacha20_ietf_blocks k input m = out"
      using False
      by (subst chacha20_ietf_blocks.simps) (simp add: out_def o1_def rest_def input'_def)
    from "1.IH" [OF False]
    have lrest: "length rest = length m - 64"
      and inv: "chacha20_ietf_blocks k input' rest = drop 64 m"
      by (simp_all add: rest_def input'_def)
    have lo1: "length o1 = min 64 (length m)" by (simp add: o1_def)
    have ne: "out \<noteq> []" using False lo1 by (cases m) (auto simp: out_def)
    have tk: "take 64 out = o1" using lo1 lrest by (auto simp: min_def out_def)
    have dr: "drop 64 out = rest" using lo1 lrest by (auto simp: min_def out_def)
    have x: "map2 (XOR) o1 (chacha_core input k) = take 64 m"
      unfolding o1_def by (rule xor_twice) simp
    have "chacha20_ietf_blocks k input out = take 64 m @ drop 64 m"
      using ne inv tk dr x
      by (subst chacha20_ietf_blocks.simps) (simp add: input'_def)
    moreover have "length out = length m" using lo1 lrest by (simp add: out_def)
    ultimately show ?thesis using out by simp
  qed
qed

lemma length_poly1305 [simp]: "length (crypto_onetimeauth_poly1305 m k) = 16"
  by (simp add: crypto_onetimeauth_poly1305_def Let_def)

lemma length_aead_mac [simp]: "length (aead_mac c ad npub k) = 16"
  by (simp add: aead_mac_def Let_def)

lemma aead_decrypt_encrypt: "aead_decrypt (aead_encrypt m ad npub k) ad npub k = Some m"
  using chacha20_ietf_blocks_involution [of k "le_bytes 4 1 @ npub" m]
  by (simp add: aead_decrypt_def aead_encrypt_def Let_def crypto_stream_chacha20_ietf_xor_ic_def)

lemma crypto_aead_roundtrip:
  assumes "length n = 12" "length k = 32"
  shows "\<exists>c. crypto_aead_chacha20poly1305_ietf_encrypt m None None n k = Inr c \<and>
             crypto_aead_chacha20poly1305_ietf_decrypt None c None n k = Inr m"
  using assms aead_decrypt_encrypt [of m "[]" n k]
  by (simp add: crypto_aead_chacha20poly1305_ietf_encrypt_def optional_buf_def
        crypto_aead_chacha20poly1305_ietf_decrypt_def
        crypto_aead_chacha20poly1305_ietf_NPUBBYTES_def aead_encrypt_def Let_def)


section \<open>The example session\<close>

lemma le_nat_le_bytes: "le_nat (le_bytes k n) = n mod 256 ^ k"
proof (induction k arbitrary: n)
  case 0
  show ?case by simp
next
  case (Suc k)
  have "unat (of_nat (n mod 256) :: byte) = n mod 256" by (simp add: unat_of_nat)
  then have "le_nat (le_bytes (Suc k) n) = n mod 256 + 256 * (n div 256 mod 256 ^ k)"
    using Suc [of "n div 256"] by simp
  also have "\<dots> = n mod (256 * 256 ^ k)" by (simp add: mod_mult2_eq)
  finally show ?case by simp
qed

lemma le_bytes_odd:
  assumes "odd n"
  shows "le_bytes 32 n \<noteq> replicate 32 0"
proof
  assume "le_bytes 32 n = replicate 32 0"
  then have "le_nat (le_bytes 32 n) = 0" by simp
  then have "n mod 256 ^ 32 = 0" by (simp add: le_nat_le_bytes)
  then have "(256::nat) ^ 32 dvd n" by (simp add: dvd_eq_mod_eq_0)
  moreover have "(2::nat) dvd 256 ^ 32" by simp
  ultimately have "2 dvd n" by (rule dvd_trans [rotated])
  then show False using assms by simp
qed

lemma decode_u_le_bytes: "x < 2 ^ 255 \<Longrightarrow> decode_u (le_bytes 32 x) = x"
proof -
  assume a: "x < 2 ^ 255"
  have "(2::nat) ^ 255 \<le> 256 ^ 32" by simp
  then have "x < 256 ^ 32" using a by linarith
  then show ?thesis using a by (simp add: decode_u_def le_nat_le_bytes)
qed

lemma example_scalarmult_u: "scalarmult_u example_prims n u = u ^ n mod 2 ^ 255"
  by (simp add: example_prims_def)

lemma odd_power_mod: "odd (u::nat) \<Longrightarrow> odd (u ^ n mod 2 ^ 255)"
  using dvd_mod_iff [of 2 "2 ^ 255" "u ^ n"] by simp

lemma example_handshake:
  assumes "length sk = 32"
  shows "\<exists>k. crypto_scalarmult example_prims sk example_peer = Inr k"
proof -
  define b where "b = decode_scalar (replicate 32 7)"
  define a where "a = decode_scalar sk"
  have pk: "example_peer = le_bytes 32 (9 ^ b mod 2 ^ 255)"
    by (simp add: example_peer_def crypto_scalarmult_base_def example_scalarmult_u b_def)
  have u: "decode_u example_peer = 9 ^ b mod 2 ^ 255"
    unfolding pk by (rule decode_u_le_bytes) simp
  have "odd ((9::nat) ^ b mod 2 ^ 255)" by (rule odd_power_mod) simp
  then have "odd ((9 ^ b mod 2 ^ 255) ^ a mod 2 ^ 255 :: nat)" by (rule odd_power_mod)
  then have "le_bytes 32 ((9 ^ b mod 2 ^ 255) ^ a mod 2 ^ 255) \<noteq> replicate 32 0"
    by (rule le_bytes_odd)
  moreover have "length example_peer = 32" by (simp add: pk)
  ultimately show ?thesis using assms u
    by (simp add: crypto_scalarmult_def example_scalarmult_u a_def Let_def)
qed

lemma example_session_ok:
  "reachable example_prims example_session \<and> sharedKey example_session \<noteq> None"
proof -
  define s0 where "s0 = fst (init example_prims example_rng new_SecureChatService)"
  have r0: "reachable example_prims s0"
    unfolding s0_def by (intro reachable.after_init reachable.fresh)
  have "isReady s0" unfolding s0_def by (rule init_ready)
  with reachable_inv [OF r0] obtain kp where
    kp: "x25519 s0 = Some kp" "length (privateKey kp) = 32"
    by (auto simp: session_inv_def split: option.splits)
  from example_handshake [OF kp(2)] obtain k where
    k: "crypto_scalarmult example_prims (privateKey kp) example_peer = Inr k" by blast
  have c: "computeSharedKey example_prims s0 example_peer = Inr (k, s0\<lparr>sharedKey := Some k\<rparr>)"
    using kp k by (simp add: computeSharedKey_def)
  then have e: "example_session = s0\<lparr>sharedKey := Some k\<rparr>"
    by (simp add: example_session_def s0_def)
  have "reachable example_prims (s0\<lparr>sharedKey := Some k\<rparr>)"
    using r0 c by (rule reachable.after_computeSharedKey)
  then show ?thesis unfolding e by simp
qed


section \<open>Round trips\<close>

lemma shared_key_length:
  "reachable P s \<Longrightarrow> sharedKey s = Some k \<Longrightarrow> length k = 32"
  using reachable_inv [of P s] by (simp add: session_inv_def)

lemma roundtripAEAD_eq:
  assumes "reachable P s" "sharedKey s \<noteq> None"
  shows "roundtripAEAD g s m = to_string (from_string m)"
proof -
  from assms(2) obtain k where k: "sharedKey s = Some k" by blast
  have lk: "length k = 32" using shared_key_length [OF assms(1) k] .
  define n where "n = map g [0..<12]"
  have ln: "length n = 12" by (simp add: n_def)
  from crypto_aead_roundtrip [OF ln lk, of "from_string m"] obtain c where
    c: "crypto_aead_chacha20poly1305_ietf_encrypt (from_string m) None None n k = Inr c"
       "crypto_aead_chacha20poly1305_ietf_decrypt None c None n k = Inr (from_string m)"
    by blast
  show ?thesis
    using k c
    by (simp add: roundtripAEAD_def encryptAEAD_def decryptAEAD_def randombytes_buf_def
          crypto_aead_chacha20poly1305_ietf_NPUBBYTES_def n_def [symmetric] Let_def)
qed

lemma encryptRaw_decryptRaw:
  assumes "reachable P s" "sharedKey s \<noteq> None" "is_String m"
  shows "\<exists>c. encryptRaw g s m = Inr (\<lparr>nonce = map g [0..<8], ciphertext = c\<rparr>, \<lambda>i. g (i + 8)) \<and>
             decryptRaw s c (map g [0..<8]) = to_string (from_string m)"
proof -
  from assms(2) obtain k where k: "sharedKey s = Some k" by blast
  have lk: "length k = 32" using shared_key_length [OF assms(1) k] .
  define n where "n = map g [0..<8]"
  have ln: "length n = 8" by (simp add: n_def)
  have lm: "length (from_string m) < 2 ^ 60"
    using length_String [OF assms(3)] by (simp add: from_string_def)
  from streamXOR_roundtrip [OF lk ln lm] obtain c where
    c: "streamXOR k n (from_string m) (replicate (length (from_string m)) 0) = Inr c"
       "streamXOR k n c (replicate (length c) 0) = Inr (from_string m)" by blast
  show ?thesis
    using k c
    by (simp add: encryptRaw_def decryptRaw_def randombytes_buf_def n_def [symmetric] Let_def)
qed

lemma roundtripRaw_eq:
  assumes "reachable P s" "sharedKey s \<noteq> None" "is_String m"
  shows "roundtripRaw g s m = to_string (from_string m)"
  using encryptRaw_decryptRaw [OF assms, of g] by (auto simp: roundtripRaw_def)

lemma encryptRawFixedNonce_decrypt:
  assumes "reachable P s" "sharedKey s \<noteq> None" "is_String m"
  shows "\<exists>c. encryptRawFixedNonce s m = Inr c \<and>
             decryptRawFixedNonce s c = TextDecoder_decode False (TextEncoder_encode m) \<and>
             decryptRaw s c (replicate 8 0) = to_string (from_string m)"
proof -
  from assms(2) obtain k where k: "sharedKey s = Some k" by blast
  have lk: "length k = 32" using shared_key_length [OF assms(1) k] .
  have ln: "length fixedNonce = 8" by (simp add: fixedNonce_def)
  have lm: "length (TextEncoder_encode m) < 2 ^ 60" using length_String [OF assms(3)] .
  from streamXOR_roundtrip [OF lk ln lm] obtain c where
    c: "streamXOR k fixedNonce (TextEncoder_encode m)
          (replicate (length (TextEncoder_encode m)) 0) = Inr c"
       "streamXOR k fixedNonce c (replicate (length c) 0) = Inr (TextEncoder_encode m)"
    by blast
  show ?thesis
    using k c
    by (simp add: encryptRawFixedNonce_def decryptRawFixedNonce_def decryptRaw_def
          from_string_def Let_def fixedNonce_def [symmetric])
qed

lemma roundtripRawFixedNonce_eq:
  assumes "reachable P s" "sharedKey s \<noteq> None" "is_String m"
  shows "roundtripRawFixedNonce s m = TextDecoder_decode False (TextEncoder_encode m)"
  using encryptRawFixedNonce_decrypt [OF assms] by (auto simp: roundtripRawFixedNonce_def)

lemma stream_scheme_zero_nonce_eq:
  "encryptRawFixedNonce s m = stream_scheme_zero_nonce s m"
  by (simp add: stream_scheme_zero_nonce_def encryptRawFixedNonce_def from_string_def
        fixedNonce_def Let_def split: option.splits)

lemma encryptRaw_zero_rng:
  "encryptRawFixedNonce s m = Inr c \<Longrightarrow>
   encryptRaw (\<lambda>i. 0) s m = Inr (\<lparr>nonce = fixedNonce, ciphertext = c\<rparr>, \<lambda>i. 0)"
proof -
  have z: "map (\<lambda>i. 0 :: byte) [0..<8] = replicate 8 0" by (simp add: map_replicate_const)
  assume "encryptRawFixedNonce s m = Inr c"
  then show ?thesis
    by (auto simp: encryptRaw_def encryptRawFixedNonce_def randombytes_buf_def
          from_string_def fixedNonce_def z Let_def split: option.splits)
qed

lemma text_bad_1: "TextEncoder_encode [0xD800] = [0xEF, 0xBF, 0xBD]"
  by (simp add: TextEncoder_encode_def is_high_surrogate_def utf8_encode_scalar_def)

lemma text_bad_2: "TextDecoder_decode fatal [0xEF, 0xBF, 0xBD] = Inr [0xFFFD]"
  by (simp add: TextDecoder_decode_def utf8_handler_def utf8_init_def utf16_encode_scalar_def)

lemma text_bom_1: "TextEncoder_encode [0xFEFF] = [0xEF, 0xBB, 0xBF]"
  by (simp add: TextEncoder_encode_def is_high_surrogate_def is_low_surrogate_def
        utf8_encode_scalar_def)

lemma text_bom_2: "TextDecoder_decode fatal [0xEF, 0xBB, 0xBF] = Inr []"
  by (simp add: TextDecoder_decode_def utf8_init_def)

lemma is_String_small: "length m < 100 \<Longrightarrow> is_String m"
  by (simp add: is_String_def)

lemma well_formed_hello: "well_formed (ascii ''hello'') \<and> take 1 (ascii ''hello'') \<noteq> [0xFEFF]"
  by (simp add: ascii_def is_high_surrogate_def is_low_surrogate_def)


section \<open>Hexadecimal input\<close>

lemma hex2bin_loop_complete:
  "hex2bin_loop maxlen cs pos bin acc st = (0, pos + length cs, bin', st') \<Longrightarrow>
   (\<forall>c\<in>set cs. hex_val c \<noteq> None) \<and> (st' \<longleftrightarrow> (st \<noteq> odd (length cs)))"
proof (induction cs arbitrary: pos bin acc st)
  case Nil
  then show ?case by simp
next
  case (Cons c cs)
  show ?case
  proof (cases "hex_val c")
    case None
    then show ?thesis using Cons.prems by simp
  next
    case (Some v)
    show ?thesis
    proof (cases st)
      case True
      with Some Cons.prems have
        "hex2bin_loop maxlen cs (pos + 1) (bin @ [acc OR v]) acc False
           = (0, (pos + 1) + length cs, bin', st')"
        by (simp split: if_splits)
      from Cons.IH [OF this] show ?thesis using Some True by auto
    next
      case False
      with Some Cons.prems have
        "hex2bin_loop maxlen cs (pos + 1) bin (v * 16) True
           = (0, (pos + 1) + length cs, bin', st')"
        by (simp split: if_splits)
      from Cons.IH [OF this] show ?thesis using Some False by auto
    qed
  qed
qed

lemma from_hex_Inr:
  assumes "from_hex str = Inr bs"
  shows "(\<forall>b\<in>set (from_string str). hex_val b \<noteq> None) \<and> even (length (from_string str)) \<and>
         length bs = length (from_string str) div 2"
proof -
  define input where "input = from_string str"
  obtain ret pos bin st where
    l: "hex2bin_loop (length input div 2) input 0 [] 0 False = (ret, pos, bin, st)"
    by (metis prod_cases4)
  from assms l have "\<not> st \<and> ret = 0 \<and> pos = length input \<and>
      bs = take (length input div 2) (bin @ replicate (length input div 2) 0)"
    by (auto simp: from_hex_def sodium_hex2bin_def input_def [symmetric] Let_def
             split: if_splits)
  then have st: "\<not> st" and l': "hex2bin_loop (length input div 2) input 0 [] 0 False
       = (0, 0 + length input, bin, st)"
    and bs: "bs = take (length input div 2) (bin @ replicate (length input div 2) 0)"
    using l by simp_all
  from hex2bin_loop_complete [OF l'] st bs show ?thesis
    by (simp add: input_def)
qed

lemma scalars_all: "\<forall>cp\<in>set (to_scalar_values s). is_scalar cp"
proof (induction s rule: to_scalar_values.induct)
  case 1
  show ?case by simp
next
  case (2 c)
  have "is_scalar 0xFFFD" by (simp add: is_scalar_def)
  then show ?case by (auto simp: scalar_unit)
next
  case (3 c d cs)
  have f: "is_scalar 0xFFFD" by (simp add: is_scalar_def)
  show ?case
    using 3 f
    by (cases "is_high_surrogate c"; cases "is_low_surrogate d"; cases "is_low_surrogate c")
       (simp_all add: scalar_unit scalar_pair)
qed

lemma hex_val_small: "hex_val b \<noteq> None \<Longrightarrow> unat b \<le> 0x7F"
  by (auto simp: hex_val_def split: if_splits)

lemma hex_scalar:
  assumes "is_scalar cp" "\<forall>b\<in>set (utf8_encode_scalar cp). hex_val b \<noteq> None"
  shows "cp \<le> 0x7F \<and> utf8_encode_scalar cp = [of_nat cp] \<and> hex_val (of_nat cp) \<noteq> None"
proof -
  consider "cp \<le> 0x7F" | "0x7F < cp \<and> cp \<le> 0x7FF"
    | "0x7FF < cp \<and> cp \<le> 0xFFFF \<and> \<not> (0xD800 \<le> cp \<and> cp \<le> 0xDFFF)"
    | "0xFFFF < cp \<and> cp < 0x110000"
    using assms(1) unfolding is_scalar_def by linarith
  then show ?thesis
  proof cases
    case 1
    then have "utf8_encode_scalar cp = [of_nat cp]" by (simp add: utf8_encode_scalar_def)
    then show ?thesis using 1 assms(2) by simp
  next
    case 2
    with enc2 [of cp] obtain b1 b2 a where
      e: "utf8_encode_scalar cp = [b1, b2]" and u: "unat b1 = a + 0xC0" by blast
    then have "hex_val b1 \<noteq> None" using assms(2) by simp
    then show ?thesis using hex_val_small [of b1] u by simp
  next
    case 3
    with enc3 [of cp] obtain b1 b2 b3 a where
      e: "utf8_encode_scalar cp = [b1, b2, b3]" and u: "unat b1 = a + 0xE0" by blast
    then have "hex_val b1 \<noteq> None" using assms(2) by simp
    then show ?thesis using hex_val_small [of b1] u by simp
  next
    case 4
    with enc4 [of cp] obtain b1 b2 b3 b4 a where
      e: "utf8_encode_scalar cp = [b1, b2, b3, b4]" and u: "unat b1 = a + 0xF0" by blast
    then have "hex_val b1 \<noteq> None" using assms(2) by simp
    then show ?thesis using hex_val_small [of b1] u by simp
  qed
qed

lemma hex_unit:
  assumes "unat (c :: 16 word) \<le> 0x7F" "hex_val (of_nat (unat c)) \<noteq> None"
  shows "is_hex_unit c"
proof -
  have "unat (of_nat (unat c) :: byte) = unat c" using assms(1) by (intro unat_byte) simp
  then show ?thesis using assms(2) by (auto simp: hex_val_def is_hex_unit_def split: if_splits)
qed

lemma surrogate_not_small:
  "is_high_surrogate c \<or> is_low_surrogate c \<Longrightarrow> \<not> unat c \<le> 0x7F"
  by (auto simp: is_high_surrogate_def is_low_surrogate_def)

lemma hex_string:
  "\<forall>b\<in>set (TextEncoder_encode s). hex_val b \<noteq> None \<Longrightarrow>
   (\<forall>c\<in>set s. is_hex_unit c) \<and> length (TextEncoder_encode s) = length s"
proof (induction s rule: to_scalar_values.induct)
  case 1
  show ?case by (simp add: TextEncoder_encode_def)
next
  case (2 c)
  from scalars_all [of "[c]"] have sc: "is_scalar (hd (to_scalar_values [c]))" by simp
  from 2 have h: "\<forall>b\<in>set (utf8_encode_scalar (hd (to_scalar_values [c]))). hex_val b \<noteq> None"
    by (simp add: TextEncoder_encode_def)
  from hex_scalar [OF sc h] have
    k: "hd (to_scalar_values [c]) \<le> 0x7F"
       "utf8_encode_scalar (hd (to_scalar_values [c])) = [of_nat (hd (to_scalar_values [c]))]"
       "hex_val (of_nat (hd (to_scalar_values [c]))) \<noteq> None" by simp_all
  have ns: "\<not> (is_high_surrogate c \<or> is_low_surrogate c)" using k(1) by (auto split: if_splits)
  then have "hd (to_scalar_values [c]) = unat c" by simp
  then show ?case using k ns hex_unit [of c] by (simp add: TextEncoder_encode_def)
next
  case (3 c d cs)
  define cp where "cp = hd (to_scalar_values (c # d # cs))"
  define rest where "rest = tl (to_scalar_values (c # d # cs))"
  have ne: "to_scalar_values (c # d # cs) = cp # rest"
    by (simp add: cp_def rest_def)
  have sc: "is_scalar cp" using scalars_all [of "c # d # cs"] ne by simp
  have h: "\<forall>b\<in>set (utf8_encode_scalar cp). hex_val b \<noteq> None"
    and hr: "\<forall>b\<in>set (concat (map utf8_encode_scalar rest)). hex_val b \<noteq> None"
    using "3.prems" ne by (simp_all add: TextEncoder_encode_def)
  from hex_scalar [OF sc h] have
    k: "cp \<le> 0x7F" "utf8_encode_scalar cp = [of_nat cp]" "hex_val (of_nat cp) \<noteq> None"
    by simp_all
  have nh: "\<not> is_high_surrogate c"
  proof
    assume hs: "is_high_surrogate c"
    then have "cp = 0xFFFD \<or> cp = 0x10000 + 0x400 * (unat c mod 0x400) + unat d mod 0x400"
      by (simp add: cp_def)
    then show False using k(1) by auto
  qed
  have nl: "\<not> is_low_surrogate c"
  proof
    assume "is_low_surrogate c"
    then have "cp = 0xFFFD" using nh by (simp add: cp_def)
    then show False using k(1) by simp
  qed
  have cpc: "cp = unat c" and r: "rest = to_scalar_values (d # cs)"
    using nh nl by (simp_all add: cp_def rest_def)
  have "\<forall>b\<in>set (TextEncoder_encode (d # cs)). hex_val b \<noteq> None"
    using hr r by (simp add: TextEncoder_encode_def)
  from "3.IH"(4) [OF nh nl this] have
    ih: "\<forall>c\<in>set (d # cs). is_hex_unit c" "length (TextEncoder_encode (d # cs)) = length (d # cs)"
    by simp_all
  have "is_hex_unit c" using hex_unit [of c] k cpc by simp
  moreover have "TextEncoder_encode (c # d # cs) = of_nat cp # TextEncoder_encode (d # cs)"
    using ne k(2) r by (simp add: TextEncoder_encode_def)
  ultimately show ?case using ih by simp
qed

text \<open>
  C9.  \<^verbatim>\<open>hexToUint8Array\<close> throws an error, "invalid input" or "incomplete input", on
  a string of odd length and on a string with a character that is not a hexadecimal
  digit; when it returns, the array has exactly half as many bytes as the string has
  characters, so nothing of the input is dropped.
\<close>

theorem hexToUint8Array_malformed:
  "(odd (length s) \<or> (\<exists>c\<in>set s. \<not> is_hex_unit c) \<longrightarrow>
      hexToUint8Array s = Inl (Error (ascii ''invalid input'')) \<or>
      hexToUint8Array s = Inl (Error (ascii ''incomplete input''))) \<and>
   (\<forall>bs. hexToUint8Array s = Inr bs \<longrightarrow> length bs = length s div 2)"
proof -
  have "even (length s) \<and> (\<forall>c\<in>set s. is_hex_unit c) \<and> length bs = length s div 2"
    if "hexToUint8Array s = Inr bs" for bs
  proof -
    from that have f: "from_hex s = Inr bs" by (simp add: hexToUint8Array_def)
    from from_hex_Inr [OF f] have
      a: "\<forall>b\<in>set (TextEncoder_encode s). hex_val b \<noteq> None"
      and b: "even (length (TextEncoder_encode s))"
      and c: "length bs = length (TextEncoder_encode s) div 2"
      by (simp_all add: from_string_def)
    from hex_string [OF a] b c show ?thesis by simp
  qed
  moreover have "hexToUint8Array s = Inl (Error (ascii ''invalid input'')) \<or>
      hexToUint8Array s = Inl (Error (ascii ''incomplete input'')) \<or>
      (\<exists>bs. hexToUint8Array s = Inr bs)"
    by (simp add: hexToUint8Array_def from_hex_def Let_def split: prod.splits)
  ultimately show ?thesis by blast
qed

lemma hexToUint8Array_example: "hexToUint8Array (ascii ''0fA1'') = Inr [0x0F, 0xA1]"
  by (simp add: hexToUint8Array_def from_hex_def from_string_def TextEncoder_encode_def
        ascii_def is_high_surrogate_def is_low_surrogate_def utf8_encode_scalar_def
        sodium_hex2bin_def hex_val_def Let_def)

theorem hexToUint8Array_malformed_witness:
  "odd (length (ascii ''abc'')) \<and>
   (hexToUint8Array (ascii ''abc'') = Inl (Error (ascii ''invalid input'')) \<or>
    hexToUint8Array (ascii ''abc'') = Inl (Error (ascii ''incomplete input''))) \<and>
   (\<exists>c\<in>set (ascii ''0g''). \<not> is_hex_unit c) \<and>
   (hexToUint8Array (ascii ''0g'') = Inl (Error (ascii ''invalid input'')) \<or>
    hexToUint8Array (ascii ''0g'') = Inl (Error (ascii ''incomplete input''))) \<and>
   hexToUint8Array (ascii ''0fA1'') = Inr [0x0F, 0xA1] \<and>
   length [0x0F, 0xA1 :: byte] = length (ascii ''0fA1'') div 2"
proof -
  have o: "odd (length (ascii ''abc''))" by (simp add: ascii_def)
  have g: "\<exists>c\<in>set (ascii ''0g''). \<not> is_hex_unit c" by (simp add: ascii_def is_hex_unit_def)
  show ?thesis
    using o g hexToUint8Array_example hexToUint8Array_malformed [of "ascii ''abc''"]
      hexToUint8Array_malformed [of "ascii ''0g''"]
      hexToUint8Array_malformed [of "ascii ''0fA1''"]
    by blast
qed

section \<open>Errors and signatures\<close>

lemma errors_distinct:
  "authentication_failure \<noteq> uninitialized \<and> authentication_failure \<noteq> no_shared_key \<and>
   uninitialized \<noteq> no_shared_key \<and>
   authentication_failure \<notin> set malformed_input_errors \<and>
   uninitialized \<notin> set malformed_input_errors \<and>
   no_shared_key \<notin> set malformed_input_errors"
  by (simp add: authentication_failure_def uninitialized_def no_shared_key_def
        malformed_input_errors_def ascii_def)

lemma decryptAEAD_malformed:
  assumes "reachable P s" "sharedKey s \<noteq> None" "length c < 16 \<or> length n \<noteq> 12"
  shows "\<exists>e\<in>set malformed_input_errors. decryptAEAD s c n = Inl e"
proof -
  from assms(2) obtain k where k: "sharedKey s = Some k" by blast
  show ?thesis using k assms(3)
    by (auto simp: decryptAEAD_def crypto_aead_chacha20poly1305_ietf_decrypt_def optional_buf_def
          crypto_aead_chacha20poly1305_ietf_NPUBBYTES_def malformed_input_errors_def)
qed

lemma decryptAEAD_bad_tag:
  assumes "reachable P s" "sharedKey s \<noteq> None" "16 \<le> length c" "length n = 12"
    "\<not> tag_verifies_in s n c"
  shows "decryptAEAD s c n = Inl authentication_failure"
proof -
  from assms(2) obtain k where k: "sharedKey s = Some k" by blast
  have lk: "length k = 32" using shared_key_length [OF assms(1) k] .
  show ?thesis using k lk assms(3,4,5)
    by (simp add: decryptAEAD_def crypto_aead_chacha20poly1305_ietf_decrypt_def optional_buf_def
          crypto_aead_chacha20poly1305_ietf_NPUBBYTES_def aead_decrypt_def Let_def
          tag_verifies_in_def tag_verifies_def authentication_failure_def)
qed

text \<open>
  C5.  The four failure conditions throw four different exceptions: with a shared key
  established, \<^verbatim>\<open>decryptAEAD\<close> on a ciphertext whose tag does not verify throws the
  authentication failure and returns no plaintext, and on a ciphertext or nonce of the
  wrong size a malformed-input error; without a shared key it throws the no-shared-key
  error; an accessor before \<^verbatim>\<open>init\<close> throws the uninitialized error; and the
  authentication failure, the uninitialized error, the no-shared-key error and the
  malformed-input errors are pairwise different.
\<close>

theorem authentication_failure_distinct:
  assumes "reachable P s" "sharedKey s \<noteq> None"
  shows "(16 \<le> length c \<and> length n = 12 \<and> \<not> tag_verifies_in s n c \<longrightarrow>
            decryptAEAD s c n = Inl authentication_failure) \<and>
         (length c < 16 \<or> length n \<noteq> 12 \<longrightarrow>
            (\<exists>e\<in>set malformed_input_errors. decryptAEAD s c n = Inl e)) \<and>
         decryptAEAD new_SecureChatService c n = Inl no_shared_key \<and>
         x25519PublicKey new_SecureChatService = Inl uninitialized \<and>
         authentication_failure \<noteq> uninitialized \<and> authentication_failure \<noteq> no_shared_key \<and>
         uninitialized \<noteq> no_shared_key \<and>
         authentication_failure \<notin> set malformed_input_errors \<and>
         uninitialized \<notin> set malformed_input_errors \<and>
         no_shared_key \<notin> set malformed_input_errors"
  using decryptAEAD_bad_tag [OF assms, of c n] decryptAEAD_malformed [OF assms, of c n]
    errors_distinct
  by (simp add: decryptAEAD_def x25519PublicKey_def new_SecureChatService_def)

theorem authentication_failure_distinct_witness:
  "reachable example_prims example_session \<and> sharedKey example_session \<noteq> None \<and>
   (decryptAEAD example_session (replicate 16 0) (replicate 12 0) = Inl authentication_failure \<or>
    decryptAEAD example_session (replicate 16 1) (replicate 12 0) = Inl authentication_failure)"
proof -
  have r: "reachable example_prims example_session" and k: "sharedKey example_session \<noteq> None"
    using example_session_ok by simp_all
  have "\<not> tag_verifies_in example_session (replicate 12 0) (replicate 16 0) \<or>
        \<not> tag_verifies_in example_session (replicate 12 0) (replicate 16 1)"
    using k by (auto simp: tag_verifies_in_def tag_verifies_def)
  then show ?thesis
    using r k authentication_failure_distinct [OF r k, of "replicate 16 0" "replicate 12 0"]
      authentication_failure_distinct [OF r k, of "replicate 16 1" "replicate 12 0"]
    by auto
qed

text \<open>
  The sizes that \<^verbatim>\<open>verifyDHSignature\<close> checks: for a 64-byte signature and a 32-byte
  signing key it returns, without throwing, the verdict of the Ed25519 verification of
  the signature over the exchange public key under the signing key that was passed,
  and it throws, a malformed-input error, exactly when one of the two sizes is wrong.
  Which signatures the verification accepts is not decided here.
\<close>

lemma verifyDHSignature_sizes:
  "(length sig = 64 \<and> length pk = 32 \<longrightarrow>
      verifyDHSignature P dh sig pk = Inr (sign_verify_detached P sig dh pk)) \<and>
   (length sig \<noteq> 64 \<or> length pk \<noteq> 32 \<longrightarrow>
      (\<exists>e\<in>set malformed_input_errors. verifyDHSignature P dh sig pk = Inl e)) \<and>
   (\<forall>e. verifyDHSignature P dh sig pk = Inl e \<longrightarrow> length sig \<noteq> 64 \<or> length pk \<noteq> 32)"
  by (auto simp: verifyDHSignature_def crypto_sign_verify_detached_def malformed_input_errors_def)

lemma verifyDHSignature_example:
  "verifyDHSignature example_prims (replicate 32 2) (replicate 32 1 @ replicate 32 2)
     (replicate 32 1) = Inr True \<and>
   verifyDHSignature example_prims (replicate 32 2) (replicate 32 1 @ replicate 32 3)
     (replicate 32 1) = Inr False \<and>
   (\<exists>e\<in>set malformed_input_errors.
      verifyDHSignature example_prims (replicate 32 2) (replicate 63 1) (replicate 32 1) = Inl e)"
proof -
  have v: "sign_verify_detached example_prims (replicate 32 1 @ replicate 32 2)
             (replicate 32 2) (replicate 32 1)"
    and f: "\<not> sign_verify_detached example_prims (replicate 32 1 @ replicate 32 3)
             (replicate 32 2) (replicate 32 1)"
    by (simp_all add: example_prims_def)
  show ?thesis
    using v f
      verifyDHSignature_sizes [of "replicate 32 1 @ replicate 32 2" "replicate 32 1"
        example_prims "replicate 32 2"]
      verifyDHSignature_sizes [of "replicate 32 1 @ replicate 32 3" "replicate 32 1"
        example_prims "replicate 32 2"]
      verifyDHSignature_sizes [of "replicate 63 1" "replicate 32 1"
        example_prims "replicate 32 2"]
    by simp
qed

section \<open>Key agreement\<close>

lemma le_bytes_nonzero:
  assumes "x \<noteq> 0" "x < 2 ^ 255"
  shows "le_bytes 32 x \<noteq> replicate 32 0"
proof
  assume "le_bytes 32 x = replicate 32 0"
  then have "le_nat (le_bytes 32 x) = 0" by simp
  then have z: "x mod 256 ^ 32 = 0" by (simp add: le_nat_le_bytes)
  have "(2::nat) ^ 255 \<le> 256 ^ 32" by simp
  then have "x < 256 ^ 32" using assms(2) by linarith
  then show False using z assms(1) by simp
qed

lemma honest_scalarmult:
  assumes "scalar_multiplication P" "length ska = 32" "length skb = 32"
  shows "crypto_scalarmult P ska (crypto_scalarmult_base P skb)
           = Inr (le_bytes 32 (scalarmult_u P (decode_scalar ska * decode_scalar skb) 9))"
proof -
  define a where "a = decode_scalar ska"
  define b where "b = decode_scalar skb"
  have law: "scalarmult_u P a (scalarmult_u P b 9) = scalarmult_u P (a * b) 9"
    and cb: "scalarmult_u P b 9 < 2 ^ 255"
    and cab: "scalarmult_u P (a * b) 9 < 2 ^ 255"
    using assms(1) by (simp_all add: scalar_multiplication_def)
  have nz: "scalarmult_u P (a * b) 9 \<noteq> 0"
    using assms by (simp add: scalar_multiplication_def a_def b_def)
  have u: "decode_u (crypto_scalarmult_base P skb) = scalarmult_u P b 9"
    unfolding crypto_scalarmult_base_def b_def [symmetric] using cb by (rule decode_u_le_bytes)
  have "le_bytes 32 (scalarmult_u P (a * b) 9) \<noteq> replicate 32 0"
    using nz cab by (rule le_bytes_nonzero)
  moreover have "length (crypto_scalarmult_base P skb) = 32"
    by (simp add: crypto_scalarmult_base_def)
  ultimately show ?thesis
    using assms(2) u law
    by (simp add: crypto_scalarmult_def Let_def a_def [symmetric] b_def [symmetric])
qed

text \<open>
  C3.  For two initialized sessions A and B, \<^verbatim>\<open>computeSharedKey\<close> of A on the exchange
  public key of B and \<^verbatim>\<open>computeSharedKey\<close> of B on that of A return, and store, the
  same 32 bytes.  The equality is derived from the law of scalar multiplication.
\<close>

theorem shared_key_agreement:
  assumes "scalar_multiplication P"
    and "reachable P A" "isReady A" "reachable P B" "isReady B"
    and "x25519PublicKey A = Inr pkA" "x25519PublicKey B = Inr pkB"
  shows "\<exists>k. computeSharedKey P A pkB = Inr (k, A\<lparr>sharedKey := Some k\<rparr>) \<and>
             computeSharedKey P B pkA = Inr (k, B\<lparr>sharedKey := Some k\<rparr>) \<and> length k = 32"
proof -
  from reachable_inv [OF assms(2)] assms(3,6) obtain kpa where
    a: "x25519 A = Some kpa" "pkA = crypto_scalarmult_base P (privateKey kpa)"
       "length (privateKey kpa) = 32"
    by (auto simp: session_inv_def x25519PublicKey_def split: option.splits)
  from reachable_inv [OF assms(4)] assms(5,7) obtain kpb where
    b: "x25519 B = Some kpb" "pkB = crypto_scalarmult_base P (privateKey kpb)"
       "length (privateKey kpb) = 32"
    by (auto simp: session_inv_def x25519PublicKey_def split: option.splits)
  define k where
    "k = le_bytes 32
           (scalarmult_u P (decode_scalar (privateKey kpa) * decode_scalar (privateKey kpb)) 9)"
  have ka: "crypto_scalarmult P (privateKey kpa) pkB = Inr k"
    unfolding b(2) k_def by (rule honest_scalarmult [OF assms(1) a(3) b(3)])
  have kb: "crypto_scalarmult P (privateKey kpb) pkA = Inr k"
    unfolding a(2) k_def using honest_scalarmult [OF assms(1) b(3) a(3)]
    by (simp add: mult.commute)
  have "length k = 32" by (simp add: k_def)
  then show ?thesis using a(1) b(1) ka kb by (auto simp: computeSharedKey_def)
qed

lemma example_scalar_multiplication: "scalar_multiplication example_prims"
proof -
  have "(x ^ b mod M) ^ a mod M = x ^ (a * b) mod M" for a b x M :: nat
    by (metis power_mod power_mult mult.commute)
  then have "(9 ^ b mod 2 ^ 255) ^ a mod 2 ^ 255 = (9::nat) ^ (a * b) mod 2 ^ 255" for a b :: nat
    by blast
  moreover have "(9::nat) ^ n mod 2 ^ 255 \<noteq> 0" for n
    using odd_power_mod [of 9 n] by (metis even_zero odd_numeral)
  ultimately show ?thesis
    by (simp add: scalar_multiplication_def example_scalarmult_u)
qed

theorem shared_key_agreement_witness:
  "scalar_multiplication example_prims \<and>
   (\<exists>k. computeSharedKey example_prims
           (fst (init example_prims example_rng new_SecureChatService))
           (publicKey (the (x25519 (fst (init example_prims example_rng2 new_SecureChatService)))))
         = Inr (k, fst (init example_prims example_rng new_SecureChatService)
                     \<lparr>sharedKey := Some k\<rparr>) \<and>
        computeSharedKey example_prims
           (fst (init example_prims example_rng2 new_SecureChatService))
           (publicKey (the (x25519 (fst (init example_prims example_rng new_SecureChatService)))))
         = Inr (k, fst (init example_prims example_rng2 new_SecureChatService)
                     \<lparr>sharedKey := Some k\<rparr>) \<and>
        length k = 32)"
proof -
  define A where "A = fst (init example_prims example_rng new_SecureChatService)"
  define B where "B = fst (init example_prims example_rng2 new_SecureChatService)"
  have rA: "reachable example_prims A" and rB: "reachable example_prims B"
    unfolding A_def B_def by (intro reachable.after_init reachable.fresh)+
  have iA: "isReady A" and iB: "isReady B" unfolding A_def B_def by (rule init_ready)+
  have pA: "x25519PublicKey A = Inr (publicKey (the (x25519 A)))"
    using reachable_inv [OF rA] iA
    by (auto simp: session_inv_def x25519PublicKey_def split: option.splits)
  have pB: "x25519PublicKey B = Inr (publicKey (the (x25519 B)))"
    using reachable_inv [OF rB] iB
    by (auto simp: session_inv_def x25519PublicKey_def split: option.splits)
  show ?thesis
    using shared_key_agreement [OF example_scalar_multiplication rA iA rB iB pA pB]
      example_scalar_multiplication
    by (simp add: A_def B_def)
qed


section \<open>Round trips of messages\<close>

text \<open>
  C1, as amended.  In a session whose shared key has been established by
  \<^verbatim>\<open>computeSharedKey\<close>, for every message that is well formed (no surrogate code unit
  outside a pair) and does not begin with U+FEFF, \<^verbatim>\<open>encryptAEAD\<close> returns a nonce and a
  ciphertext from which \<^verbatim>\<open>decryptAEAD\<close> returns the message exactly.
\<close>

theorem aead_roundtrip_well_formed:
  assumes "reachable P s" "sharedKey s \<noteq> None" "well_formed m" "take 1 m \<noteq> [0xFEFF]"
  shows "roundtripAEAD g s m = Inr m"
  using roundtripAEAD_eq [OF assms(1,2), of g m] text_roundtrip [OF assms(3,4), of True]
  by (simp add: to_string_def from_string_def)

theorem aead_roundtrip_well_formed_witness:
  "reachable example_prims example_session \<and> sharedKey example_session \<noteq> None \<and>
   well_formed (ascii ''hello'') \<and> take 1 (ascii ''hello'') \<noteq> [0xFEFF] \<and>
   roundtripAEAD example_rng example_session (ascii ''hello'') = Inr (ascii ''hello'')"
proof -
  have r: "reachable example_prims example_session" and k: "sharedKey example_session \<noteq> None"
    using example_session_ok by simp_all
  have w: "well_formed (ascii ''hello'')" and b: "take 1 (ascii ''hello'') \<noteq> [0xFEFF]"
    using well_formed_hello by simp_all
  show ?thesis
    using r k w b aead_roundtrip_well_formed [OF r k w b, of example_rng] by simp
qed

text \<open>
  C1 as stated, for every string, fails: the encoder writes the unpaired surrogate
  U+D800 as U+FFFD, and the decoder drops a leading U+FEFF as a byte order mark.
\<close>

theorem aead_roundtrip_counterexample:
  "roundtripAEAD example_rng example_session [0xD800] = Inr [0xFFFD] \<and>
   roundtripAEAD example_rng example_session [0xD800] \<noteq> Inr [0xD800] \<and>
   roundtripAEAD example_rng example_session [0xFEFF] = Inr [] \<and>
   roundtripAEAD example_rng example_session [0xFEFF] \<noteq> Inr [0xFEFF]"
proof -
  have r: "reachable example_prims example_session" and k: "sharedKey example_session \<noteq> None"
    using example_session_ok by simp_all
  show ?thesis
    by (simp add: roundtripAEAD_eq [OF r k] to_string_def from_string_def
          text_bad_1 text_bad_2 text_bom_1 text_bom_2)
qed

text \<open>
  C4, as amended.  In a session whose shared key has been established, for every
  message that is well formed and does not begin with U+FEFF, \<^verbatim>\<open>decryptRaw\<close> returns
  the message from the nonce and ciphertext of \<^verbatim>\<open>encryptRaw\<close>, and
  \<^verbatim>\<open>decryptRawFixedNonce\<close> returns it from the ciphertext of \<^verbatim>\<open>encryptRawFixedNonce\<close>.
\<close>

theorem stream_roundtrip_well_formed:
  assumes "reachable P s" "sharedKey s \<noteq> None" "is_String m" "well_formed m"
    "take 1 m \<noteq> [0xFEFF]"
  shows "roundtripRaw g s m = Inr m \<and> roundtripRawFixedNonce s m = Inr m"
  using roundtripRaw_eq [OF assms(1,2,3), of g] roundtripRawFixedNonce_eq [OF assms(1,2,3)]
    text_roundtrip [OF assms(4,5), of True] text_roundtrip [OF assms(4,5), of False]
  by (simp add: to_string_def from_string_def)

theorem stream_roundtrip_well_formed_witness:
  "reachable example_prims example_session \<and> sharedKey example_session \<noteq> None \<and>
   is_String (ascii ''hello'') \<and> well_formed (ascii ''hello'') \<and>
   take 1 (ascii ''hello'') \<noteq> [0xFEFF] \<and>
   roundtripRaw example_rng example_session (ascii ''hello'') = Inr (ascii ''hello'') \<and>
   roundtripRawFixedNonce example_session (ascii ''hello'') = Inr (ascii ''hello'')"
proof -
  have r: "reachable example_prims example_session" and k: "sharedKey example_session \<noteq> None"
    using example_session_ok by simp_all
  have w: "well_formed (ascii ''hello'')" and b: "take 1 (ascii ''hello'') \<noteq> [0xFEFF]"
    using well_formed_hello by simp_all
  have i: "is_String (ascii ''hello'')" by (rule is_String_small) (simp add: ascii_def)
  show ?thesis
    using r k i w b stream_roundtrip_well_formed [OF r k i w b, of example_rng] by simp
qed

text \<open>
  C4 as stated, for every string, fails: the fixed-nonce round trip of the one-unit
  message U+FEFF returns the empty string, and the random-nonce round trip of the
  unpaired surrogate U+DC00 returns U+FFFD.
\<close>

theorem stream_roundtrip_counterexample:
  "roundtripRawFixedNonce example_session [0xFEFF] = Inr [] \<and>
   roundtripRawFixedNonce example_session [0xFEFF] \<noteq> Inr [0xFEFF] \<and>
   roundtripRaw example_rng example_session [0xDC00] = Inr [0xFFFD] \<and>
   roundtripRaw example_rng example_session [0xDC00] \<noteq> Inr [0xDC00]"
proof -
  have r: "reachable example_prims example_session" and k: "sharedKey example_session \<noteq> None"
    using example_session_ok by simp_all
  have i1: "is_String [0xFEFF]" and i2: "is_String [0xDC00]"
    by (rule is_String_small, simp)+
  have e: "TextEncoder_encode [0xDC00] = [0xEF, 0xBF, 0xBD]"
    by (simp add: TextEncoder_encode_def is_high_surrogate_def is_low_surrogate_def
          utf8_encode_scalar_def)
  show ?thesis
    by (simp add: roundtripRaw_eq [OF r k i2] roundtripRawFixedNonce_eq [OF r k i1]
          to_string_def from_string_def e text_bad_2 text_bom_1 text_bom_2)
qed

text \<open>
  C10, as amended.  The fixed nonce is eight zero bytes; for every message and
  established shared key, \<^verbatim>\<open>encryptRawFixedNonce\<close> returns the ciphertext of the
  explicit-nonce stream scheme under the zero nonce, which is also what \<^verbatim>\<open>encryptRaw\<close>
  returns when the random nonce comes out as zeros; and for every message that is well
  formed and does not begin with U+FEFF, \<^verbatim>\<open>decryptRaw\<close> with eight zero bytes returns
  the message from that ciphertext.
\<close>

theorem fixed_nonce_is_zero_nonce:
  assumes "reachable P s" "sharedKey s \<noteq> None" "is_String m"
  shows "fixedNonce = [0, 0, 0, 0, 0, 0, 0, 0] \<and>
         encryptRawFixedNonce s m = stream_scheme_zero_nonce s m \<and>
         (\<exists>c. encryptRawFixedNonce s m = Inr c \<and>
              encryptRaw (\<lambda>i. 0) s m = Inr (\<lparr>nonce = fixedNonce, ciphertext = c\<rparr>, \<lambda>i. 0) \<and>
              (well_formed m \<and> take 1 m \<noteq> [0xFEFF] \<longrightarrow> decryptRaw s c fixedNonce = Inr m))"
proof -
  have f: "fixedNonce = [0, 0, 0, 0, 0, 0, 0, 0]"
    by (simp add: fixedNonce_def numeral_eq_Suc)
  from encryptRawFixedNonce_decrypt [OF assms] obtain c where
    c: "encryptRawFixedNonce s m = Inr c"
       "decryptRaw s c (replicate 8 0) = to_string (from_string m)" by blast
  have "decryptRaw s c fixedNonce = Inr m" if "well_formed m" "take 1 m \<noteq> [0xFEFF]"
    using c(2) text_roundtrip [OF that, of True]
    by (simp add: to_string_def from_string_def fixedNonce_def)
  then show ?thesis
    using f c(1) encryptRaw_zero_rng [OF c(1)] stream_scheme_zero_nonce_eq [of s m] by auto
qed

theorem fixed_nonce_is_zero_nonce_witness:
  "reachable example_prims example_session \<and> sharedKey example_session \<noteq> None \<and>
   is_String (ascii ''hello'') \<and> well_formed (ascii ''hello'') \<and>
   take 1 (ascii ''hello'') \<noteq> [0xFEFF] \<and>
   (\<exists>c. encryptRawFixedNonce example_session (ascii ''hello'') = Inr c \<and>
        decryptRaw example_session c fixedNonce = Inr (ascii ''hello''))"
proof -
  have r: "reachable example_prims example_session" and k: "sharedKey example_session \<noteq> None"
    using example_session_ok by simp_all
  have w: "well_formed (ascii ''hello'')" and b: "take 1 (ascii ''hello'') \<noteq> [0xFEFF]"
    using well_formed_hello by simp_all
  have i: "is_String (ascii ''hello'')" by (rule is_String_small) (simp add: ascii_def)
  from fixed_nonce_is_zero_nonce [OF r k i] obtain c where
    "encryptRawFixedNonce example_session (ascii ''hello'') = Inr c"
    "well_formed (ascii ''hello'') \<and> take 1 (ascii ''hello'') \<noteq> [0xFEFF] \<longrightarrow>
       decryptRaw example_session c fixedNonce = Inr (ascii ''hello'')"
    by blast
  then show ?thesis using r k i w b by blast
qed

text \<open>
  C10 as stated, for every message, fails: \<^verbatim>\<open>decryptRaw\<close> with eight zero bytes reads
  the fixed-nonce ciphertext of the message U+FEFF as the empty string.
\<close>

theorem fixed_nonce_counterexample:
  "decrypt_fixed_as_raw example_session [0xFEFF] = Inr [] \<and>
   decrypt_fixed_as_raw example_session [0xFEFF] \<noteq> Inr [0xFEFF]"
proof -
  have r: "reachable example_prims example_session" and k: "sharedKey example_session \<noteq> None"
    using example_session_ok by simp_all
  have i: "is_String [0xFEFF]" by (rule is_String_small) simp
  have z: "[0, 0, 0, 0, 0, 0, 0, 0] = replicate 8 (0 :: byte)" by (simp add: numeral_eq_Suc)
  from encryptRawFixedNonce_decrypt [OF r k i] obtain c where
    "encryptRawFixedNonce example_session [0xFEFF] = Inr c"
    "decryptRaw example_session c (replicate 8 0) = to_string (from_string [0xFEFF])" by blast
  then show ?thesis
    by (simp add: decrypt_fixed_as_raw_def z to_string_def from_string_def text_bom_1 text_bom_2)
qed

end
